theory Spec2Isabelle
  imports Complex_Main
begin

section \<open>Arrays as the notebooks use them\<close>

text \<open>
  The notebooks \<open>fmri-2\<close> (first-level GLM) and \<open>fmri-6\<close> (functional connectivity) are
  sequences of NumPy calls on dense arrays. An array is a shape and a row-major
  (C-contiguous) buffer, which is what \<open>np.zeros\<close>, \<open>get_fdata()\<close> and every indexing
  result of the notebooks are. Array elements are IEEE doubles; the notebooks only copy
  them, compare them (\<open>==\<close>, \<open>>=\<close>, \<open>isnan\<close>) and store the constants 0, 1 and NaN, so a
  double is a rational, an infinity or NaN (both signed zeros are \<open>Fin 0\<close>).
\<close>

datatype float64 = Fin rat | PosInf | NegInf | NaN

text \<open>NumPy's exceptions: an index out of range or too many indices is an IndexError,
  operands that do not broadcast are a ValueError.\<close>

datatype error = IndexError | ValueError

record 'a ndarray =
  shape :: "nat list"
  data :: "'a list"

definition wf :: "'a ndarray \<Rightarrow> bool" where
  "wf a \<longleftrightarrow> length (data a) = prod_list (shape a)"

text \<open>Row-major offset of a multi-index, and the multi-index of an offset
  (\<open>np.ravel_multi_index\<close>, \<open>np.unravel_index\<close>).\<close>

fun ravel :: "nat list \<Rightarrow> nat list \<Rightarrow> nat" where
  "ravel (d # ds) (i # is) = i * prod_list ds + ravel ds is"
| "ravel _ _ = 0"

fun unravel :: "nat list \<Rightarrow> nat \<Rightarrow> nat list" where
  "unravel [] n = []"
| "unravel (d # ds) n = (n div prod_list ds) # unravel ds (n mod prod_list ds)"

text \<open>\<open>np.zeros(shape)\<close>.\<close>

definition np_zeros :: "nat list \<Rightarrow> float64 ndarray" where
  "np_zeros s = \<lparr>shape = s, data = replicate (prod_list s) (Fin 0)\<rparr>"

text \<open>\<open>a.T\<close>: the axes reversed. Element \<open>(i\<^sub>1, \<dots>, i\<^sub>k)\<close> of the result is element
  \<open>(i\<^sub>k, \<dots>, i\<^sub>1)\<close> of \<open>a\<close>; a one-dimensional array is unchanged.\<close>

definition np_T :: "'a ndarray \<Rightarrow> 'a ndarray" where
  "np_T a = \<lparr>shape = rev (shape a),
            data = map (\<lambda>f. data a ! ravel (shape a) (rev (unravel (rev (shape a)) f)))
                       [0 ..< prod_list (shape a)]\<rparr>"

subsection \<open>\<open>np.where(mask)\<close>\<close>

text \<open>
  \<open>np.where(m)\<close> with one argument is \<open>m.nonzero()\<close>: a tuple with one index array per
  axis of \<open>m\<close>, listing the positions of the true entries in row-major order. A
  zero-dimensional argument is refused (ValueError).
\<close>

definition nonzero_flat :: "bool list \<Rightarrow> nat list" where
  "nonzero_flat bs = filter (\<lambda>i. bs ! i) [0 ..< length bs]"

definition np_where :: "bool ndarray \<Rightarrow> error + int list list" where
  "np_where m =
     (if shape m = [] then Inl ValueError
      else let ps = map (unravel (shape m)) (nonzero_flat (data m))
           in Inr (map (\<lambda>ax. map (\<lambda>p. int (p ! ax)) ps) [0 ..< length (shape m)]))"

subsection \<open>Indexing with a tuple of index arrays\<close>

text \<open>
  \<open>a[c]\<close> and \<open>a[c] = v\<close> for a tuple \<open>c\<close> of one-dimensional integer arrays. The index
  arrays are broadcast against each other (equal lengths, or length 1), giving \<open>n\<close>
  positions over the first \<open>length c\<close> axes; a negative index counts from the end of its
  axis; an index outside its axis is an IndexError.
\<close>

definition bcast_len :: "int list list \<Rightarrow> nat option" where
  "bcast_len c =
     (case filter (\<lambda>l. l \<noteq> 1) (map length c) of
        [] \<Rightarrow> Some 1
      | l # ls \<Rightarrow> if list_all (\<lambda>l'. l' = l) ls then Some l else None)"

definition index_rows :: "int list list \<Rightarrow> nat \<Rightarrow> int list list" where
  "index_rows c n =
     map (\<lambda>j. map (\<lambda>arr. if length arr = 1 then arr ! 0 else arr ! j) c) [0 ..< n]"

definition norm_index :: "nat \<Rightarrow> int \<Rightarrow> error + nat" where
  "norm_index d i =
     (if 0 \<le> i \<and> i < int d then Inr (nat i)
      else if - int d \<le> i \<and> i < 0 then Inr (nat (i + int d))
      else Inl IndexError)"

fun norm_position :: "nat list \<Rightarrow> int list \<Rightarrow> error + nat list" where
  "norm_position (d # ds) (i # is) =
     (case norm_index d i of
        Inl e \<Rightarrow> Inl e
      | Inr j \<Rightarrow> (case norm_position ds is of Inl e \<Rightarrow> Inl e | Inr js \<Rightarrow> Inr (j # js)))"
| "norm_position _ _ = Inr []"

fun norm_positions :: "nat list \<Rightarrow> int list list \<Rightarrow> error + nat list list" where
  "norm_positions ds [] = Inr []"
| "norm_positions ds (r # rs) =
     (case norm_position ds r of
        Inl e \<Rightarrow> Inl e
      | Inr p \<Rightarrow> (case norm_positions ds rs of Inl e \<Rightarrow> Inl e | Inr ps \<Rightarrow> Inr (p # ps)))"

text \<open>The block of \<open>a\<close> below a position over its first axes: \<open>blk\<close> consecutive elements.\<close>

definition block :: "'a list \<Rightarrow> nat \<Rightarrow> nat \<Rightarrow> 'a list" where
  "block d off blk = take blk (drop (off * blk) d)"

definition getitem :: "'a ndarray \<Rightarrow> int list list \<Rightarrow> error + 'a ndarray" where
  "getitem a c =
     (if c = [] then Inr a
      else if length (shape a) < length c then Inl IndexError
      else case bcast_len c of
        None \<Rightarrow> Inl IndexError
      | Some n \<Rightarrow>
          (case norm_positions (take (length c) (shape a)) (index_rows c n) of
             Inl e \<Rightarrow> Inl e
           | Inr ps \<Rightarrow>
               let rest = drop (length c) (shape a); blk = prod_list rest
               in Inr \<lparr>shape = n # rest,
                       data = concat (map (\<lambda>p. block (data a)
                                  (ravel (take (length c) (shape a)) p) blk) ps)\<rparr>))"

text \<open>
  Broadcasting the right-hand side of an assignment to the shape of the indexing result:
  surplus leading axes of length 1 are dropped, the shapes are aligned at the right, and
  each axis of the value must have the target's length or length 1.
\<close>

fun strip_ones :: "nat list \<Rightarrow> nat \<Rightarrow> nat list" where
  "strip_ones (d # ds) n = (if n < length (d # ds) \<and> d = 1 then strip_ones ds n else d # ds)"
| "strip_ones [] n = []"

definition broadcast_to :: "'a ndarray \<Rightarrow> nat list \<Rightarrow> error + 'a list" where
  "broadcast_to v t =
     (let s = strip_ones (shape v) (length t)
      in if length t < length s then Inl ValueError
         else let s' = replicate (length t - length s) 1 @ s
              in if list_all2 (\<lambda>sd td. sd = td \<or> sd = 1) s' t
                 then Inr (map (\<lambda>f. data v !
                             ravel s' (map2 (\<lambda>sd i. if sd = 1 then 0 else i) s' (unravel t f)))
                           [0 ..< prod_list t])
                 else Inl ValueError)"

text \<open>Writing block \<open>j\<close> of the broadcast value at each position, in order (a position
  that occurs twice keeps the later value).\<close>

definition write_block :: "'a list \<Rightarrow> nat \<Rightarrow> 'a list \<Rightarrow> 'a list" where
  "write_block d off b = take (off * length b) d @ b @ drop (off * length b + length b) d"

fun write_blocks :: "'a list \<Rightarrow> (nat \<times> 'a list) list \<Rightarrow> 'a list" where
  "write_blocks d [] = d"
| "write_blocks d ((off, b) # rest) = write_blocks (write_block d off b) rest"

definition setitem :: "'a ndarray \<Rightarrow> int list list \<Rightarrow> 'a ndarray \<Rightarrow> error + 'a ndarray" where
  "setitem a c v =
     (if c = [] then
        (case broadcast_to v (shape a) of
           Inl e \<Rightarrow> Inl e
         | Inr d \<Rightarrow> Inr (a\<lparr>data := d\<rparr>))
      else if length (shape a) < length c then Inl IndexError
      else case bcast_len c of
        None \<Rightarrow> Inl IndexError
      | Some n \<Rightarrow>
          let rest = drop (length c) (shape a); blk = prod_list rest
          in (case broadcast_to v (n # rest) of
                Inl e \<Rightarrow> Inl e
              | Inr vd \<Rightarrow>
                  (case norm_positions (take (length c) (shape a)) (index_rows c n) of
                     Inl e \<Rightarrow> Inl e
                   | Inr ps \<Rightarrow>
                       Inr (a\<lparr>data := write_blocks (data a)
                              (zip (map (ravel (take (length c) (shape a))) ps)
                                   (map (\<lambda>j. block vd j blk) [0 ..< n]))\<rparr>))))"

text \<open>\<open>a[i]\<close> for an integer \<open>i\<close>: the \<open>i\<close>-th block along the first axis.\<close>

definition getrow :: "'a ndarray \<Rightarrow> int \<Rightarrow> error + 'a ndarray" where
  "getrow a i =
     (case shape a of
        [] \<Rightarrow> Inl IndexError
      | d # rest \<Rightarrow>
          (case norm_index d i of
             Inl e \<Rightarrow> Inl e
           | Inr j \<Rightarrow> Inr \<lparr>shape = rest, data = block (data a) j (prod_list rest)\<rparr>))"

subsection \<open>Elementwise comparisons and boolean-mask assignment\<close>

text \<open>IEEE comparisons: every comparison with NaN is false.\<close>

fun feq :: "float64 \<Rightarrow> float64 \<Rightarrow> bool" where
  "feq NaN _ = False"
| "feq _ NaN = False"
| "feq x y = (x = y)"

fun fge :: "float64 \<Rightarrow> float64 \<Rightarrow> bool" where
  "fge NaN _ = False"
| "fge _ NaN = False"
| "fge PosInf _ = True"
| "fge _ NegInf = True"
| "fge (Fin a) (Fin b) = (b \<le> a)"
| "fge _ _ = False"

fun isnan :: "float64 \<Rightarrow> bool" where
  "isnan NaN = True"
| "isnan _ = False"

definition np_eq :: "float64 ndarray \<Rightarrow> float64 \<Rightarrow> bool ndarray" where
  "np_eq a v = \<lparr>shape = shape a, data = map (\<lambda>x. feq x v) (data a)\<rparr>"

definition np_ge :: "float64 ndarray \<Rightarrow> float64 \<Rightarrow> bool ndarray" where
  "np_ge a v = \<lparr>shape = shape a, data = map (\<lambda>x. fge x v) (data a)\<rparr>"

definition np_isnan :: "float64 ndarray \<Rightarrow> bool ndarray" where
  "np_isnan a = \<lparr>shape = shape a, data = map isnan (data a)\<rparr>"

text \<open>\<open>a[m] = v\<close> for a boolean array \<open>m\<close> and a scalar \<open>v\<close>; \<open>m\<close> must have the shape
  of \<open>a\<close>.\<close>

definition setitem_mask :: "'a ndarray \<Rightarrow> bool ndarray \<Rightarrow> 'a \<Rightarrow> error + 'a ndarray" where
  "setitem_mask a m v =
     (if shape m = shape a
      then Inr (a\<lparr>data := map2 (\<lambda>x t. if t then v else x) (data a) (data m)\<rparr>)
      else Inl IndexError)"

section \<open>Masking in \<open>fmri-2\<close> and \<open>fmri-6\<close>\<close>

text \<open>
  The gray-matter mask of \<open>fmri-2\<close>:
  \<^verbatim>\<open>mask_bool = np.logical_or(aseg == 3, aseg == 42)\<close>
  \<^verbatim>\<open>mask_coords = np.where(mask_bool)\<close>
  \<open>mask_coords\<close> is the coordinate set of a boolean mask.
\<close>

definition mask_bool :: "float64 ndarray \<Rightarrow> bool ndarray" where
  "mask_bool aseg =
     \<lparr>shape = shape aseg,
      data = map2 (\<or>) (data (np_eq aseg (Fin 3))) (data (np_eq aseg (Fin 42)))\<rparr>"

definition mask_coords :: "bool ndarray \<Rightarrow> error + int list list" where
  "mask_coords m = np_where m"

text \<open>
  The seed region of \<open>fmri-6\<close>, for a one-dimensional label array and the index of the
  label: \<^verbatim>\<open>roi_vertices = np.where(parcellation == labels.index(roi_label))[0]\<close>
\<close>

definition roi_vertices :: "int ndarray \<Rightarrow> int \<Rightarrow> error + int list" where
  "roi_vertices parcellation l =
     (case np_where \<lparr>shape = shape parcellation,
                     data = map (\<lambda>x. x = l) (data parcellation)\<rparr> of
        Inl e \<Rightarrow> Inl e
      | Inr c \<Rightarrow> (case c of [] \<Rightarrow> Inl IndexError | v # _ \<Rightarrow> Inr v))"

text \<open>
  Gathering the masked data, transposed to time by voxel:
  \<^verbatim>\<open>bold_masked = bold[mask_coords]\<close>
  \<^verbatim>\<open>bold_masked = bold_masked.T\<close>
\<close>

definition bold_masked :: "'a ndarray \<Rightarrow> int list list \<Rightarrow> error + 'a ndarray" where
  "bold_masked bold c = (case getitem bold c of Inl e \<Rightarrow> Inl e | Inr r \<Rightarrow> Inr (np_T r))"

text \<open>
  Scattering values back into a zero-filled grid:
  \<^verbatim>\<open>beta_map = np.zeros(aseg.shape)\<close>
  \<^verbatim>\<open>beta_map[mask_coords] = b[0]\<close>
\<close>

definition scatter :: "float64 ndarray \<Rightarrow> int list list \<Rightarrow> nat list \<Rightarrow> error + float64 ndarray" where
  "scatter v c s = setitem (np_zeros s) c v"

text \<open>
  The whole cell, from the coefficient matrix \<open>b\<close> of the regression:
  \<^verbatim>\<open>beta_map = np.zeros(aseg.shape)\<close>
  \<^verbatim>\<open>beta_map[mask_coords] = b[0]\<close>
  \<^verbatim>\<open>beta_map[beta_map == 0] = np.nan\<close>
\<close>

definition zeros_to_nan :: "float64 ndarray \<Rightarrow> error + float64 ndarray" where
  "zeros_to_nan a = setitem_mask a (np_eq a (Fin 0)) NaN"

definition beta_map :: "nat list \<Rightarrow> int list list \<Rightarrow> float64 ndarray \<Rightarrow> error + float64 ndarray" where
  "beta_map aseg_shape c b =
     (case getrow b 0 of
        Inl e \<Rightarrow> Inl e
      | Inr b0 \<Rightarrow>
          (case scatter b0 c aseg_shape of
             Inl e \<Rightarrow> Inl e
           | Inr m \<Rightarrow> zeros_to_nan m))"

section \<open>Motion censors\<close>

text \<open>
  \<^verbatim>\<open>fd_threshold = 0.25\<close>
  \<^verbatim>\<open>fd = confounds_df['FramewiseDisplacement'].values\<close>
  \<^verbatim>\<open>fd[np.isnan(fd)] = 0\<close>
  \<^verbatim>\<open>bad_vols = np.argwhere(fd >= fd_threshold)\<close>
  \<^verbatim>\<open>censors = np.zeros((fd.shape[0], bad_vols.shape[0]))\<close>
  \<^verbatim>\<open>censors[bad_vols.T, np.arange(bad_vols.shape[0])] = 1\<close>
  \<open>fd\<close> is a column of the confounds table: a one-dimensional array, given here by its
  elements. \<open>np.argwhere\<close> is the transpose of \<open>nonzero\<close>: one row per true entry. The two
  index arrays of the last line have shapes \<open>(1, k)\<close> and \<open>(k,)\<close> and broadcast to
  \<open>(1, k)\<close>; the assignment of a scalar writes the positions
  \<open>(bad_vols[j, 0], j)\<close> for \<open>j < k\<close>, which are the positions of the two index arrays
  read in row-major order.
\<close>

definition fd_threshold :: float64 where
  "fd_threshold = Fin (1 / 4)"

definition arr1 :: "'a list \<Rightarrow> 'a ndarray" where
  "arr1 xs = \<lparr>shape = [length xs], data = xs\<rparr>"

definition scalar :: "'a \<Rightarrow> 'a ndarray" where
  "scalar x = \<lparr>shape = [], data = [x]\<rparr>"

definition np_argwhere :: "bool ndarray \<Rightarrow> int ndarray" where
  "np_argwhere m =
     (let ps = map (unravel (shape m)) (nonzero_flat (data m))
      in \<lparr>shape = [length ps, length (shape m)], data = concat (map (map int) ps)\<rparr>)"

definition np_arange :: "nat \<Rightarrow> int list" where
  "np_arange k = map int [0 ..< k]"

definition fd_nan_to_zero :: "float64 list \<Rightarrow> error + float64 ndarray" where
  "fd_nan_to_zero fd = setitem_mask (arr1 fd) (np_isnan (arr1 fd)) (Fin 0)"

definition bad_vols :: "float64 ndarray \<Rightarrow> int ndarray" where
  "bad_vols fd = np_argwhere (np_ge fd fd_threshold)"

definition censors :: "float64 list \<Rightarrow> error + float64 ndarray" where
  "censors fd0 =
     (case fd_nan_to_zero fd0 of
        Inl e \<Rightarrow> Inl e
      | Inr fd \<Rightarrow>
          let bv = bad_vols fd
          in setitem (np_zeros [hd (shape fd), hd (shape bv)])
                     [data (np_T bv), np_arange (hd (shape bv))]
                     (scalar (Fin 1)))"

section \<open>The design matrix\<close>

text \<open>
  \<^verbatim>\<open>X = np.column_stack([blocks_hrf, confounds])\<close>
  \<open>np.column_stack\<close> turns an array of fewer than two dimensions into a column and
  concatenates along the second axis; the arrays must agree in every other axis.
\<close>

definition as_column :: "'a ndarray \<Rightarrow> 'a ndarray" where
  "as_column a =
     (case shape a of
        [] \<Rightarrow> a\<lparr>shape := [1, 1]\<rparr>
      | [n] \<Rightarrow> a\<lparr>shape := [n, 1]\<rparr>
      | _ \<Rightarrow> a)"

definition concat_axis1 :: "'a ndarray list \<Rightarrow> error + 'a ndarray" where
  "concat_axis1 as =
     (case as of
        [] \<Rightarrow> Inl ValueError
      | a # _ \<Rightarrow>
          if list_all (\<lambda>b. length (shape b) = length (shape a) \<and> 2 \<le> length (shape b)
                          \<and> hd (shape b) = hd (shape a)
                          \<and> drop 2 (shape b) = drop 2 (shape a)) as
          then Inr \<lparr>shape = hd (shape a) # sum_list (map (\<lambda>b. shape b ! 1) as) # drop 2 (shape a),
                    data = concat (map (\<lambda>i. concat (map (\<lambda>b. block (data b) i
                                       (prod_list (tl (shape b)))) as))
                                 [0 ..< hd (shape a)])\<rparr>
          else Inl ValueError)"

definition column_stack :: "'a ndarray list \<Rightarrow> error + 'a ndarray" where
  "column_stack as = concat_axis1 (map as_column as)"

definition X :: "float64 ndarray \<Rightarrow> float64 ndarray \<Rightarrow> error + float64 ndarray" where
  "X blocks_hrf confounds = column_stack [blocks_hrf, confounds]"

text \<open>
  Modelled from the spec: the cell of \<open>fmri-2\<close> that assembles \<open>confounds\<close> is left blank
  in the notebook (``Define intercept'', ``Stack nuisance regressors''). The spec's design
  matrix has the nuisance regressors followed by an intercept column that is constant 1,
  one row per acquired volume.
\<close>

definition np_ones :: "nat \<Rightarrow> float64 ndarray" where
  "np_ones n = \<lparr>shape = [n], data = replicate n (Fin 1)\<rparr>"

definition confounds :: "float64 ndarray \<Rightarrow> nat \<Rightarrow> error + float64 ndarray" where
  "confounds nuisance n_trs = column_stack [nuisance, np_ones n_trs]"

definition design_matrix :: "float64 ndarray \<Rightarrow> float64 ndarray \<Rightarrow> nat \<Rightarrow> error + float64 ndarray" where
  "design_matrix blocks_hrf nuisance n_trs =
     (case confounds nuisance n_trs of
        Inl e \<Rightarrow> Inl e
      | Inr cf \<Rightarrow> X blocks_hrf cf)"

section \<open>Vocabulary of the statements\<close>

text \<open>The element of an array at a multi-index, a multi-index inside a shape, the
  \<open>j\<close>-th position of a coordinate set of non-negative indices, the \<open>j\<close>-th position
  of a coordinate set over axes \<open>s\<close> with a negative index counted from the end of its
  axis, the volumes whose
  framewise displacement reaches the threshold, and a coordinate set of \<open>n\<close> positions
  over axes of lengths \<open>dims\<close> whose every index lies in its axis (counting from the
  end when negative).\<close>

definition elem :: "'a ndarray \<Rightarrow> nat list \<Rightarrow> 'a" where
  "elem a p = data a ! ravel (shape a) p"

definition in_bounds :: "nat list \<Rightarrow> nat list \<Rightarrow> bool" where
  "in_bounds s p \<longleftrightarrow> list_all2 (<) p s"

definition position :: "int list list \<Rightarrow> nat \<Rightarrow> nat list" where
  "position c j = map (\<lambda>a. nat (a ! j)) c"

definition wrap_index :: "nat \<Rightarrow> int \<Rightarrow> nat" where
  "wrap_index d i = (if i < 0 then nat (i + int d) else nat i)"

definition position_in :: "nat list \<Rightarrow> int list list \<Rightarrow> nat \<Rightarrow> nat list" where
  "position_in s c j = map2 wrap_index s (map (\<lambda>a. a ! j) c)"

definition over_threshold :: "float64 list \<Rightarrow> nat list" where
  "over_threshold fd = filter (\<lambda>i. fge (fd ! i) fd_threshold) [0 ..< length fd]"

definition coords_ok :: "nat list \<Rightarrow> int list list \<Rightarrow> nat \<Rightarrow> bool" where
  "coords_ok dims c n \<longleftrightarrow>
     list_all2 (\<lambda>a d. length a = n \<and> list_all (\<lambda>i. - int d \<le> i \<and> i < int d) a) c dims"

section \<open>Facts about offsets, coordinate sets and point-wise writes\<close>

subsection \<open>Offsets, multi-indices and index normalisation\<close>

lemma length_unravel: "length (unravel ds n) = length ds"
  by (induction ds arbitrary: n) auto

lemma unravel_in_bounds: "n < prod_list ds \<Longrightarrow> list_all2 (<) (unravel ds n) ds"
proof (induction ds arbitrary: n)
  case Nil
  then show ?case by simp
next
  case (Cons d ds)
  from Cons.prems have pos: "0 < prod_list ds"
    by (cases "prod_list ds = 0") auto
  from Cons.prems have "n div prod_list ds < d"
    by (simp add: less_mult_imp_div_less mult.commute)
  moreover have "n mod prod_list ds < prod_list ds" using pos by simp
  ultimately show ?case using Cons.IH by simp
qed

lemma ravel_unravel: "n < prod_list ds \<Longrightarrow> ravel ds (unravel ds n) = n"
proof (induction ds arbitrary: n)
  case Nil
  then show ?case by simp
next
  case (Cons d ds)
  from Cons.prems have pos: "0 < prod_list ds"
    by (cases "prod_list ds = 0") auto
  then have "ravel ds (unravel ds (n mod prod_list ds)) = n mod prod_list ds"
    using Cons.IH by simp
  then show ?case by simp
qed

lemma ravel_lt: "list_all2 (<) p ds \<Longrightarrow> ravel ds p < prod_list ds"
proof (induction p ds rule: list_all2_induct)
  case Nil
  then show ?case by simp
next
  case (Cons i p d ds)
  have "i * prod_list ds + ravel ds p < i * prod_list ds + prod_list ds"
    using Cons.IH by simp
  also have "\<dots> = Suc i * prod_list ds" by simp
  also have "\<dots> \<le> d * prod_list ds"
    using Cons.hyps(1) by (intro mult_le_mono1) simp
  finally show ?case by simp
qed

lemma unravel_ravel: "list_all2 (<) p ds \<Longrightarrow> unravel ds (ravel ds p) = p"
proof (induction p ds rule: list_all2_induct)
  case Nil
  then show ?case by simp
next
  case (Cons i p d ds)
  have lt: "ravel ds p < prod_list ds" using Cons.hyps(2) by (rule ravel_lt)
  then show ?case using Cons.IH by simp
qed

lemma ravel_append:
  "length p = length ds \<Longrightarrow> ravel (ds @ es) (p @ q) = ravel ds p * prod_list es + ravel es q"
  by (induction ds p rule: ravel.induct) (auto simp: algebra_simps)

lemma bcast_len_equal:
  assumes "c \<noteq> []" and "list_all (\<lambda>a. length a = n) c"
  shows "bcast_len c = Some n"
proof (cases "n = 1")
  case True
  with assms(2) have "filter (\<lambda>l. l \<noteq> 1) (map length c) = []"
    by (auto simp: filter_empty_conv list_all_iff)
  then show ?thesis using True by (simp add: bcast_len_def)
next
  case False
  from assms(2) have m: "map length c = replicate (length c) n"
    by (induction c) auto
  obtain a c' where c: "c = a # c'" using assms(1) by (cases c) auto
  have "filter (\<lambda>l. l \<noteq> 1) (map length c) = replicate (length c) n"
    using False by (simp add: m)
  then show ?thesis
    unfolding bcast_len_def c by (simp add: list_all_iff)
qed

lemma index_rows_equal:
  assumes "list_all (\<lambda>a. length a = n) c"
  shows "index_rows c n = map (\<lambda>j. map (\<lambda>a. a ! j) c) [0 ..< n]"
  unfolding index_rows_def
proof (rule map_cong[OF refl], rule map_cong[OF refl])
  fix j a assume "j \<in> set [0 ..< n]" "a \<in> set c"
  then have "length a = n" "j < n" using assms by (auto simp: list_all_iff)
  then show "(if length a = 1 then a ! 0 else a ! j) = a ! j" by auto
qed

lemma norm_position_nat: "list_all2 (<) p ds \<Longrightarrow> norm_position ds (map int p) = Inr p"
  by (induction p ds rule: list_all2_induct) (auto simp: norm_index_def)

lemma norm_positions_nat:
  "\<forall>p \<in> set ps. list_all2 (<) p ds \<Longrightarrow> norm_positions ds (map (map int) ps) = Inr ps"
  by (induction ps) (auto simp: norm_position_nat)

lemma norm_index_error: "norm_index d i = Inl e \<Longrightarrow> e = IndexError"
  by (auto simp: norm_index_def split: if_splits)

lemma norm_position_error: "norm_position ds r = Inl e \<Longrightarrow> e = IndexError"
  by (induction ds r rule: norm_position.induct)
     (auto split: sum.splits dest: norm_index_error)

lemma norm_positions_error: "norm_positions ds rs = Inl e \<Longrightarrow> e = IndexError"
  by (induction rs) (auto split: sum.splits dest: norm_position_error)

lemma norm_position_length:
  "norm_position ds r = Inr p \<Longrightarrow> length p = min (length ds) (length r)"
  by (induction ds r arbitrary: p rule: norm_position.induct) (auto split: sum.splits)

lemma norm_positions_length: "norm_positions ds rs = Inr ps \<Longrightarrow> length ps = length rs"
  by (induction rs arbitrary: ps) (auto split: sum.splits)

lemma norm_position_ok:
  "list_all2 (\<lambda>i d. - int d \<le> i \<and> i < int d) r ds \<Longrightarrow> \<exists>p. norm_position ds r = Inr p"
  by (induction r ds rule: list_all2_induct) (auto simp: norm_index_def)

lemma norm_positions_ok:
  "\<forall>r \<in> set rs. list_all2 (\<lambda>i d. - int d \<le> i \<and> i < int d) r ds
    \<Longrightarrow> \<exists>ps. norm_positions ds rs = Inr ps"
proof (induction rs)
  case Nil
  then show ?case by simp
next
  case (Cons r rs)
  then obtain p ps where "norm_position ds r = Inr p" "norm_positions ds rs = Inr ps"
    using norm_position_ok[of r ds] by auto
  then show ?case by simp
qed

subsection \<open>Point-wise writes and the coordinate set of a mask\<close>

lemma block_one: "off < length d \<Longrightarrow> block d off 1 = [d ! off]"
  by (simp add: block_def take_Suc_conv_app_nth Cons_nth_drop_Suc[symmetric])

lemma write_block_one: "off < length d \<Longrightarrow> write_block d off [x] = d[off := x]"
  by (simp add: write_block_def upd_conv_take_nth_drop)

lemma length_write_points:
  "\<forall>q \<in> set offs. q < length d \<Longrightarrow>
   length (write_blocks d (zip offs (map (\<lambda>x. [x]) vs))) = length d"
proof (induction offs arbitrary: d vs)
  case Nil
  then show ?case by simp
next
  case (Cons q offs)
  show ?case
  proof (cases vs)
    case Nil
    then show ?thesis by simp
  next
    case (Cons v vs')
    then show ?thesis using Cons.prems Cons.IH[of "d[q := v]" vs']
      by (simp add: write_block_one)
  qed
qed

lemma write_points_other:
  "\<forall>q \<in> set offs. q < length d \<Longrightarrow> i \<notin> set offs \<Longrightarrow>
   write_blocks d (zip offs (map (\<lambda>x. [x]) vs)) ! i = d ! i"
proof (induction offs arbitrary: d vs)
  case Nil
  then show ?case by simp
next
  case (Cons q offs)
  show ?case
  proof (cases vs)
    case Nil
    then show ?thesis by simp
  next
    case (Cons v vs')
    then show ?thesis using Cons.prems Cons.IH[of "d[q := v]" vs']
      by (simp add: write_block_one)
  qed
qed

lemma write_points_hit:
  "\<forall>q \<in> set offs. q < length d \<Longrightarrow> distinct offs \<Longrightarrow> length vs = length offs \<Longrightarrow>
   j < length offs \<Longrightarrow>
   write_blocks d (zip offs (map (\<lambda>x. [x]) vs)) ! (offs ! j) = vs ! j"
proof (induction offs arbitrary: d vs j)
  case Nil
  then show ?case by simp
next
  case (Cons q offs)
  then obtain v vs' where vs: "vs = v # vs'" by (cases vs) auto
  have step: "write_blocks d (zip (q # offs) (map (\<lambda>x. [x]) vs))
      = write_blocks (d[q := v]) (zip offs (map (\<lambda>x. [x]) vs'))"
    using Cons.prems(1) by (simp add: vs write_block_one)
  have bnd: "\<forall>q' \<in> set offs. q' < length (d[q := v])" using Cons.prems(1) by simp
  show ?case
  proof (cases j)
    case 0
    have "q \<notin> set offs" using Cons.prems(2) by simp
    then have "write_blocks (d[q := v]) (zip offs (map (\<lambda>x. [x]) vs')) ! q = d[q := v] ! q"
      using bnd by (rule write_points_other[rotated])
    then show ?thesis using 0 step Cons.prems(1) by (simp add: vs)
  next
    case (Suc j')
    then have "write_blocks (d[q := v]) (zip offs (map (\<lambda>x. [x]) vs')) ! (offs ! j') = vs' ! j'"
      using Cons.prems bnd by (intro Cons.IH) (auto simp: vs)
    then show ?thesis using Suc step by (simp add: vs)
  qed
qed

lemma set_nonzero_flat: "set (nonzero_flat bs) = {i. i < length bs \<and> bs ! i}"
  by (auto simp: nonzero_flat_def)

lemma distinct_nonzero_flat: "distinct (nonzero_flat bs)"
  by (simp add: nonzero_flat_def)

lemma sorted_nonzero_flat: "sorted_wrt (<) (nonzero_flat bs)"
  by (simp add: nonzero_flat_def sorted_wrt_filter)

lemma length_nonzero_flat: "length (nonzero_flat bs) = length (filter id bs)"
proof -
  have "length (filter id bs) = length (filter id (map (nth bs) [0 ..< length bs]))"
    by (simp add: map_nth)
  also have "\<dots> = length (filter (\<lambda>i. bs ! i) [0 ..< length bs])"
    by (simp add: filter_map comp_def del: map_nth)
  finally show ?thesis by (simp add: nonzero_flat_def)
qed

lemma map_int_nth: "length p = k \<Longrightarrow> map (\<lambda>ax. int (p ! ax)) [0 ..< k] = map int p"
  by (auto simp: list_eq_iff_nth_eq)

lemma where_rows:
  assumes "\<forall>p \<in> set ps. length p = k"
  shows "map (\<lambda>j. map (\<lambda>a. a ! j) (map (\<lambda>ax. map (\<lambda>p. int (p ! ax)) ps) [0 ..< k]))
             [0 ..< length ps] = map (map int) ps"
proof (rule nth_equalityI)
  show "length (map (\<lambda>j. map (\<lambda>a. a ! j) (map (\<lambda>ax. map (\<lambda>p. int (p ! ax)) ps) [0 ..< k]))
             [0 ..< length ps]) = length (map (map int) ps)" by simp
next
  fix j assume "j < length (map (\<lambda>j. map (\<lambda>a. a ! j) (map (\<lambda>ax. map (\<lambda>p. int (p ! ax)) ps) [0 ..< k]))
             [0 ..< length ps])"
  then have j: "j < length ps" by simp
  then have "length (ps ! j) = k" using assms by simp
  then have "map (\<lambda>ax. int (ps ! j ! ax)) [0 ..< k] = map int (ps ! j)" by (rule map_int_nth)
  then show "map (\<lambda>j. map (\<lambda>a. a ! j) (map (\<lambda>ax. map (\<lambda>p. int (p ! ax)) ps) [0 ..< k]))
             [0 ..< length ps] ! j = map (map int) ps ! j"
    using j by (simp add: comp_def)
qed

text \<open>The coordinate set of a mask, as positions.\<close>

lemma where_positions:
  assumes "shape m \<noteq> []" and "wf m"
  defines "F \<equiv> nonzero_flat (data m)"
  shows "\<exists>c. np_where m = Inr c \<and> c \<noteq> [] \<and> length c = length (shape m)
        \<and> list_all (\<lambda>a. length a = length F) c
        \<and> bcast_len c = Some (length F)
        \<and> norm_positions (shape m) (index_rows c (length F)) = Inr (map (unravel (shape m)) F)"
proof -
  let ?k = "length (shape m)"
  let ?ps = "map (unravel (shape m)) F"
  let ?c = "map (\<lambda>ax. map (\<lambda>p. int (p ! ax)) ?ps) [0 ..< ?k]"
  have w: "np_where m = Inr ?c" using assms(1) by (simp add: np_where_def F_def Let_def)
  have ne: "?c \<noteq> []" using assms(1) by simp
  have la: "list_all (\<lambda>a. length a = length F) ?c" by (simp add: list_all_iff)
  have bl: "bcast_len ?c = Some (length F)" using ne la by (rule bcast_len_equal)
  have "index_rows ?c (length F) = map (\<lambda>j. map (\<lambda>a. a ! j) ?c) [0 ..< length F]"
    using la by (rule index_rows_equal)
  also have "\<dots> = map (map int) ?ps"
    using where_rows[of ?ps ?k] by (simp add: length_unravel)
  finally have ir: "index_rows ?c (length F) = map (map int) ?ps" .
  have "\<forall>p \<in> set ?ps. list_all2 (<) p (shape m)"
    using assms(2) by (auto simp: F_def set_nonzero_flat wf_def intro: unravel_in_bounds)
  then have "norm_positions (shape m) (map (map int) ?ps) = Inr ?ps"
    by (rule norm_positions_nat)
  then show ?thesis using w ne la bl ir by auto
qed

subsection \<open>Gathering and scattering at the coordinates of a mask\<close>

lemma take_drop_map_nth:
  "off + n \<le> length xs \<Longrightarrow> take n (drop off xs) = map (\<lambda>j. xs ! (off + j)) [0 ..< n]"
  by (auto simp: list_eq_iff_nth_eq)

lemma block_nth: "Suc off * blk \<le> length d \<Longrightarrow> block d off blk = map (\<lambda>j. d ! (off * blk + j)) [0 ..< blk]"
  unfolding block_def by (rule take_drop_map_nth) simp

lemma length_block: "Suc off * blk \<le> length d \<Longrightarrow> length (block d off blk) = blk"
  by (simp add: block_nth)

lemma length_concat_blocks:
  "\<forall>x \<in> set xs. length (f x) = T \<Longrightarrow> length (concat (map f xs)) = length xs * T"
  by (induction xs) auto

lemma concat_blocks_nth:
  "\<forall>x \<in> set xs. length (f x) = T \<Longrightarrow> j < length xs \<Longrightarrow> t < T \<Longrightarrow>
   concat (map f xs) ! (j * T + t) = f (xs ! j) ! t"
proof (induction xs arbitrary: j)
  case Nil
  then show ?case by simp
next
  case (Cons x xs)
  show ?case
  proof (cases j)
    case 0
    then show ?thesis using Cons.prems by (simp add: nth_append)
  next
    case (Suc j')
    then have "concat (map f xs) ! (j' * T + t) = f (xs ! j') ! t"
      using Cons.prems by (intro Cons.IH) auto
    then show ?thesis using Suc Cons.prems by (simp add: nth_append)
  qed
qed

lemma getitem_where:
  assumes "shape m \<noteq> []" and "wf m" and "shape g = shape m @ rest"
    and "np_where m = Inr c"
  shows "getitem g c = Inr \<lparr>shape = length (nonzero_flat (data m)) # rest,
           data = concat (map (\<lambda>i. block (data g) i (prod_list rest)) (nonzero_flat (data m)))\<rparr>"
proof -
  let ?F = "nonzero_flat (data m)"
  from where_positions[OF assms(1,2)] assms(4)
  have c: "c \<noteq> []" "length c = length (shape m)" "bcast_len c = Some (length ?F)"
    "norm_positions (shape m) (index_rows c (length ?F)) = Inr (map (unravel (shape m)) ?F)"
    by auto
  have "\<And>i. i \<in> set ?F \<Longrightarrow> ravel (shape m) (unravel (shape m) i) = i"
    using assms(2) by (auto simp: set_nonzero_flat wf_def intro: ravel_unravel)
  then have eq: "map (\<lambda>i. block (data g) (ravel (shape m) (unravel (shape m) i)) (prod_list rest)) ?F
      = map (\<lambda>i. block (data g) i (prod_list rest)) ?F"
    by (intro map_cong) simp_all
  show ?thesis using c by (simp add: getitem_def assms(3) Let_def comp_def eq)
qed

lemma setitem_where:
  assumes "shape m \<noteq> []" and "wf m" and "shape a = shape m @ rest"
    and "np_where m = Inr c"
    and "broadcast_to v (length (nonzero_flat (data m)) # rest) = Inr vd"
  shows "setitem a c v = Inr (a\<lparr>data := write_blocks (data a)
           (zip (nonzero_flat (data m))
                (map (\<lambda>j. block vd j (prod_list rest)) [0 ..< length (nonzero_flat (data m))]))\<rparr>)"
proof -
  let ?F = "nonzero_flat (data m)"
  from where_positions[OF assms(1,2)] assms(4)
  have c: "c \<noteq> []" "length c = length (shape m)" "bcast_len c = Some (length ?F)"
    "norm_positions (shape m) (index_rows c (length ?F)) = Inr (map (unravel (shape m)) ?F)"
    by auto
  have "\<And>i. i \<in> set ?F \<Longrightarrow> ravel (shape m) (unravel (shape m) i) = i"
    using assms(2) by (auto simp: set_nonzero_flat wf_def intro: ravel_unravel)
  then have "map (ravel (shape m)) (map (unravel (shape m)) ?F) = ?F"
    by (simp add: comp_def map_idI)
  then show ?thesis using c assms(5) by (simp add: setitem_def assms(3) Let_def)
qed

lemma broadcast_to_same_1d:
  assumes "shape v = [n]" and "wf v"
  shows "broadcast_to v [n] = Inr (data v)"
proof -
  have len: "length (data v) = n" using assms by (simp add: wf_def)
  have "map (\<lambda>f. data v ! ravel [n] (map2 (\<lambda>sd i. if sd = 1 then 0 else i) [n] (unravel [n] f))) [0 ..< n]
      = map (\<lambda>f. data v ! f) [0 ..< n]"
    by (rule map_cong) auto
  also have "\<dots> = data v" unfolding len[symmetric] by (rule map_nth)
  finally show ?thesis by (simp add: broadcast_to_def assms(1))
qed

lemma points_blocks:
  "length vd = n \<Longrightarrow> map (\<lambda>j. block vd j (Suc 0)) [0 ..< n] = map (\<lambda>x. [x]) vd"
  using block_one[of _ vd] by (auto simp: list_eq_iff_nth_eq)

text \<open>Scattering one value per true entry of a mask.\<close>

lemma scatter_where:
  assumes "shape m \<noteq> []" and "wf m" and "np_where m = Inr c"
    and "shape v = [length (nonzero_flat (data m))]" and "wf v"
  shows "\<exists>r. scatter v c (shape m) = Inr r \<and> shape r = shape m
      \<and> length (data r) = prod_list (shape m)
      \<and> (\<forall>j < length (nonzero_flat (data m)). data r ! (nonzero_flat (data m) ! j) = data v ! j)
      \<and> (\<forall>i < prod_list (shape m). \<not> data m ! i \<longrightarrow> data r ! i = Fin 0)"
proof -
  let ?F = "nonzero_flat (data m)"
  let ?N = "prod_list (shape m)"
  let ?z = "replicate ?N (Fin 0)"
  let ?d = "write_blocks ?z (zip ?F (map (\<lambda>x. [x]) (data v)))"
  have lv: "length (data v) = length ?F" using assms(4,5) by (simp add: wf_def)
  have bc: "broadcast_to v (length ?F # []) = Inr (data v)"
    using assms(4,5) by (rule broadcast_to_same_1d)
  have "setitem (np_zeros (shape m)) c v = Inr ((np_zeros (shape m))\<lparr>data := write_blocks (data (np_zeros (shape m)))
           (zip ?F (map (\<lambda>j. block (data v) j (prod_list [])) [0 ..< length ?F]))\<rparr>)"
    using assms(1,2) _ assms(3) bc by (rule setitem_where) (simp add: np_zeros_def)
  then have sc: "scatter v c (shape m) = Inr \<lparr>shape = shape m, data = ?d\<rparr>"
    using lv by (simp add: scatter_def np_zeros_def points_blocks)
  have bnd: "\<forall>q \<in> set ?F. q < length ?z"
    using assms(2) by (auto simp: set_nonzero_flat wf_def)
  have len: "length ?d = ?N" using length_write_points[OF bnd] by simp
  have hit: "\<forall>j < length ?F. ?d ! (?F ! j) = data v ! j"
    using write_points_hit[OF bnd distinct_nonzero_flat lv] by simp
  have miss: "\<forall>i < ?N. \<not> data m ! i \<longrightarrow> ?d ! i = Fin 0"
  proof (intro allI impI)
    fix i assume i: "i < ?N" "\<not> data m ! i"
    then have "i \<notin> set ?F" by (simp add: set_nonzero_flat)
    with bnd have "?d ! i = ?z ! i" by (rule write_points_other)
    then show "?d ! i = Fin 0" using i by simp
  qed
  show ?thesis using sc len hit miss by simp
qed

subsection \<open>Transposition and rows\<close>

lemma np_T_1d:
  assumes "length d = n"
  shows "np_T \<lparr>shape = [n], data = d\<rparr> = \<lparr>shape = [n], data = d\<rparr>"
proof -
  have "map (\<lambda>f. d ! ravel [n] (rev (unravel (rev [n]) f))) [0 ..< n] = map (\<lambda>f. d ! f) [0 ..< n]"
    by (rule map_cong) auto
  also have "\<dots> = d" unfolding assms[symmetric] by (rule map_nth)
  finally show ?thesis by (simp add: np_T_def)
qed

lemma unravel_2d: "j < n \<Longrightarrow> unravel [T, n] (t * n + j) = [t, j]"
  by simp

lemma row_of_T:
  assumes "length d = n * T" and "t < T"
  shows "getrow (np_T \<lparr>shape = [n, T], data = d\<rparr>) (int t)
       = Inr \<lparr>shape = [n], data = map (\<lambda>j. d ! (j * T + t)) [0 ..< n]\<rparr>"
proof -
  let ?dT = "map (\<lambda>f. d ! ravel [n, T] (rev (unravel [T, n] f))) [0 ..< n * T]"
  have le: "Suc t * n \<le> n * T"
  proof -
    have "Suc t * n \<le> T * n" using assms(2) by (intro mult_le_mono1) simp
    then show ?thesis by (simp add: mult.commute)
  qed
  have lt: "\<And>j. j < n \<Longrightarrow> t * n + j < n * T"
  proof -
    fix j assume "j < n"
    then have "t * n + j < Suc t * n" by simp
    then show "t * n + j < n * T" using le by linarith
  qed
  have "block ?dT t n = map (\<lambda>j. ?dT ! (t * n + j)) [0 ..< n]"
    using le by (intro block_nth) simp
  also have "\<dots> = map (\<lambda>j. d ! (j * T + t)) [0 ..< n]"
  proof (rule map_cong[OF refl])
    fix j assume "j \<in> set [0 ..< n]"
    then have j: "j < n" by simp
    have "?dT ! (t * n + j) = d ! ravel [n, T] (rev (unravel [T, n] (t * n + j)))"
      using lt[OF j] by simp
    also have "\<dots> = d ! (j * T + t)" using j by (simp only: unravel_2d) simp
    finally show "?dT ! (t * n + j) = d ! (j * T + t)" .
  qed
  finally have b: "block ?dT t n = map (\<lambda>j. d ! (j * T + t)) [0 ..< n]" .
  have "getrow (np_T \<lparr>shape = [n, T], data = d\<rparr>) (int t)
      = Inr \<lparr>shape = [n], data = block ?dT t n\<rparr>"
    using assms(2) by (simp add: getrow_def np_T_def norm_index_def)
  then show ?thesis by (simp only: b)
qed

lemma gathered_points:
  assumes "\<forall>i \<in> set F. i < length d"
  shows "concat (map (\<lambda>i. block d i (Suc 0)) F) = map (\<lambda>i. d ! i) F"
  using assms by (induction F) (auto simp: block_one[simplified])

lemma gathered_rows:
  assumes "\<forall>i \<in> set F. i < N" and "length d = N * T" and "t < T"
  shows "map (\<lambda>j. concat (map (\<lambda>i. block d i T) F) ! (j * T + t)) [0 ..< length F]
       = map (\<lambda>i. d ! (i * T + t)) F"
proof (rule nth_equalityI)
  show "length (map (\<lambda>j. concat (map (\<lambda>i. block d i T) F) ! (j * T + t)) [0 ..< length F])
      = length (map (\<lambda>i. d ! (i * T + t)) F)" by simp
next
  fix j assume "j < length (map (\<lambda>j. concat (map (\<lambda>i. block d i T) F) ! (j * T + t)) [0 ..< length F])"
  then have j: "j < length F" by simp
  have fit: "\<And>i. i \<in> set F \<Longrightarrow> Suc i * T \<le> length d"
  proof -
    fix i assume "i \<in> set F"
    then have "Suc i \<le> N" using assms(1) by auto
    then have "Suc i * T \<le> N * T" by (rule mult_le_mono1)
    then show "Suc i * T \<le> length d" by (simp only: assms(2))
  qed
  then have len: "\<forall>i \<in> set F. length (block d i T) = T" by (simp add: length_block)
  have "concat (map (\<lambda>i. block d i T) F) ! (j * T + t) = block d (F ! j) T ! t"
    using len j assms(3) by (rule concat_blocks_nth)
  also have "\<dots> = d ! (F ! j * T + t)"
    using fit[of "F ! j"] j assms(3) by (simp add: block_nth)
  finally show "map (\<lambda>j. concat (map (\<lambda>i. block d i T) F) ! (j * T + t)) [0 ..< length F] ! j
      = map (\<lambda>i. d ! (i * T + t)) F ! j"
    using j by simp
qed

lemma in_mask_index:
  assumes "i < length bs" and "bs ! i"
  obtains j where "j < length (nonzero_flat bs)" and "nonzero_flat bs ! j = i"
proof -
  have "i \<in> set (nonzero_flat bs)" using assms by (simp add: set_nonzero_flat)
  then show ?thesis using that by (auto simp: in_set_conv_nth)
qed

subsection \<open>Scattering values taken at the mask\<close>

lemma scatter_of_mask_values:
  assumes "shape m \<noteq> []" and "wf m" and "np_where m = Inr c"
  shows "\<exists>r. scatter \<lparr>shape = [length (nonzero_flat (data m))],
                       data = map h (nonzero_flat (data m))\<rparr> c (shape m) = Inr r
      \<and> shape r = shape m
      \<and> (\<forall>p. in_bounds (shape m) p \<longrightarrow>
            elem r p = (if elem m p then h (ravel (shape m) p) else Fin 0))"
proof -
  let ?F = "nonzero_flat (data m)"
  let ?v = "\<lparr>shape = [length ?F], data = map h ?F\<rparr>"
  have "shape ?v = [length ?F]" "wf ?v" by (simp_all add: wf_def)
  from scatter_where[OF assms this]
  obtain r where r: "scatter ?v c (shape m) = Inr r" "shape r = shape m"
    "\<forall>j < length ?F. data r ! (?F ! j) = data ?v ! j"
    "\<forall>i < prod_list (shape m). \<not> data m ! i \<longrightarrow> data r ! i = Fin 0"
    by blast
  have "elem r p = (if elem m p then h (ravel (shape m) p) else Fin 0)"
    if "in_bounds (shape m) p" for p
  proof -
    let ?i = "ravel (shape m) p"
    have i: "?i < prod_list (shape m)" using that by (simp add: in_bounds_def ravel_lt)
    show ?thesis
    proof (cases "data m ! ?i")
      case True
      moreover have "?i < length (data m)" using i assms(2) by (simp add: wf_def)
      ultimately obtain j where j: "j < length ?F" "?F ! j = ?i"
        using in_mask_index[of ?i "data m"] by blast
      then have "data r ! ?i = h ?i" using r(3) by fastforce
      then show ?thesis using True by (simp add: elem_def r(2))
    next
      case False
      then show ?thesis using r(4) i by (simp add: elem_def r(2))
    qed
  qed
  then show ?thesis using r(1,2) by blast
qed

subsection \<open>Coordinate sets inside their axes\<close>

lemma coords_ok_lengths:
  "coords_ok s c n \<Longrightarrow> length c = length s \<and> list_all (\<lambda>a. length a = n) c"
  unfolding coords_ok_def
  by (induction c s rule: list_all2_induct) auto

lemma coords_ok_row:
  "coords_ok s c n \<Longrightarrow> j < n \<Longrightarrow>
   list_all2 (\<lambda>i d. - int d \<le> i \<and> i < int d) (map (\<lambda>a. a ! j) c) s"
  unfolding coords_ok_def
  by (induction c s rule: list_all2_induct) (auto simp: list_all_length)

lemma norm_positions_coords_ok:
  assumes "coords_ok s c n"
  shows "\<exists>ps. norm_positions s (index_rows c n) = Inr ps"
proof -
  have la: "list_all (\<lambda>a. length a = n) c" using assms by (simp add: coords_ok_lengths)
  have "\<forall>r \<in> set (map (\<lambda>j. map (\<lambda>a. a ! j) c) [0 ..< n]).
          list_all2 (\<lambda>i d. - int d \<le> i \<and> i < int d) r s"
    using coords_ok_row[OF assms] by auto
  then show ?thesis unfolding index_rows_equal[OF la] by (rule norm_positions_ok)
qed

lemma getitem_coords_ok:
  assumes "c \<noteq> []" and "coords_ok s c n" and "shape g = s @ rest"
  shows "\<exists>r. getitem g c = Inr r \<and> shape r = n # rest"
proof -
  have l: "length c = length s" and la: "list_all (\<lambda>a. length a = n) c"
    using assms(2) by (simp_all add: coords_ok_lengths)
  have bl: "bcast_len c = Some n" using assms(1) la by (rule bcast_len_equal)
  obtain ps where "norm_positions s (index_rows c n) = Inr ps"
    using norm_positions_coords_ok[OF assms(2)] by blast
  then show ?thesis using assms(1) l bl by (simp add: getitem_def assms(3) Let_def)
qed

lemma norm_position_bad:
  "ax < length r \<Longrightarrow> ax < length ds \<Longrightarrow>
   r ! ax < - int (ds ! ax) \<or> int (ds ! ax) \<le> r ! ax \<Longrightarrow>
   \<exists>e. norm_position ds r = Inl e"
proof (induction ds r arbitrary: ax rule: norm_position.induct)
  case (1 d ds i "is")
  show ?case
  proof (cases ax)
    case 0
    then show ?thesis using "1.prems" by (auto simp: norm_index_def)
  next
    case (Suc ax')
    show ?thesis
    proof (cases "norm_index d i")
      case (Inl e)
      then show ?thesis by simp
    next
      case (Inr j)
      from "1.IH"[OF Inr, of ax'] "1.prems" Suc
      obtain e where "norm_position ds is = Inl e" by auto
      then show ?thesis using Inr by simp
    qed
  qed
qed simp_all

lemma norm_positions_bad:
  "r \<in> set rs \<Longrightarrow> norm_position ds r = Inl e \<Longrightarrow> \<exists>e'. norm_positions ds rs = Inl e'"
  by (induction rs) (auto split: sum.splits)

subsection \<open>Positions of a coordinate set\<close>

lemma where_position:
  assumes "shape m \<noteq> []" and "np_where m = Inr c" and "j < length (nonzero_flat (data m))"
  shows "position c j = unravel (shape m) (nonzero_flat (data m) ! j)"
proof -
  let ?F = "nonzero_flat (data m)"
  let ?k = "length (shape m)"
  have c: "c = map (\<lambda>ax. map (\<lambda>p. int (p ! ax)) (map (unravel (shape m)) ?F)) [0 ..< ?k]"
    using assms(1,2) by (simp add: np_where_def Let_def)
  have "position c j = map (\<lambda>ax. unravel (shape m) (?F ! j) ! ax) [0 ..< ?k]"
    using assms(3) by (simp add: c position_def comp_def)
  also have "\<dots> = unravel (shape m) (?F ! j)"
    using map_nth[of "unravel (shape m) (?F ! j)"] by (simp add: length_unravel)
  finally show ?thesis .
qed

lemma where_1d:
  assumes "shape m = [V]" and "wf m"
  shows "np_where m = Inr [map int (nonzero_flat (data m))]"
  using assms by (simp add: np_where_def Let_def comp_def)

lemma nonzero_flat_map:
  "nonzero_flat (map P xs) = filter (\<lambda>i. P (xs ! i)) [0 ..< length xs]"
  unfolding nonzero_flat_def by (rule filter_cong) auto

subsection \<open>Zeros to NaN and the first row\<close>

lemma feq_zero: "feq x (Fin 0) \<longleftrightarrow> x = Fin 0"
  by (cases x) auto

lemma zeros_to_nan_data:
  "zeros_to_nan a = Inr (a\<lparr>data := map (\<lambda>x. if x = Fin 0 then NaN else x) (data a)\<rparr>)"
proof -
  have "map2 (\<lambda>x t. if t then NaN else x) (data a) (map (\<lambda>x. feq x (Fin 0)) (data a))
      = map (\<lambda>x. if x = Fin 0 then NaN else x) (data a)"
    by (induction "data a") (auto simp: feq_zero zip_map2 zip_same_conv_map)
  then show ?thesis by (simp add: zeros_to_nan_def setitem_mask_def np_eq_def)
qed

lemma first_row:
  assumes "shape b = [Suc R, n]" and "wf b"
  shows "getrow b 0 = Inr \<lparr>shape = [n], data = take n (data b)\<rparr>"
    and "length (take n (data b)) = n"
proof -
  show "getrow b 0 = Inr \<lparr>shape = [n], data = take n (data b)\<rparr>"
    by (simp add: getrow_def assms(1) norm_index_def block_def)
  show "length (take n (data b)) = n" using assms by (simp add: wf_def)
qed

subsection \<open>Censor columns\<close>

lemma fge_nan_to_zero:
  "fge (if isnan x then Fin 0 else x) fd_threshold = fge x fd_threshold"
  by (cases x) (auto simp: fd_threshold_def)

lemma fd_nan_to_zero_data:
  "fd_nan_to_zero fd = Inr \<lparr>shape = [length fd],
       data = map (\<lambda>x. if isnan x then Fin 0 else x) fd\<rparr>"
proof -
  have "map2 (\<lambda>x t. if t then Fin 0 else x) fd (map isnan fd)
      = map (\<lambda>x. if isnan x then Fin 0 else x) fd"
    by (induction fd) auto
  then show ?thesis by (simp add: fd_nan_to_zero_def setitem_mask_def arr1_def np_isnan_def)
qed

lemma concat_singletons: "concat (map (\<lambda>i. [f i]) xs) = map f xs"
  by (induction xs) auto

lemma bad_vols_data:
  "bad_vols \<lparr>shape = [length fd], data = map (\<lambda>x. if isnan x then Fin 0 else x) fd\<rparr>
     = \<lparr>shape = [length (over_threshold fd), 1], data = map int (over_threshold fd)\<rparr>"
proof -
  have "nonzero_flat (map (\<lambda>x. fge x fd_threshold) (map (\<lambda>x. if isnan x then Fin 0 else x) fd))
      = over_threshold fd"
    unfolding nonzero_flat_def over_threshold_def
    by (rule filter_cong) (auto simp: fge_nan_to_zero)
  then show ?thesis
    by (simp add: bad_vols_def np_argwhere_def np_ge_def Let_def comp_def concat_singletons)
qed

lemma np_T_column:
  assumes "length d = k"
  shows "np_T \<lparr>shape = [k, 1], data = d\<rparr> = \<lparr>shape = [1, k], data = d\<rparr>"
proof -
  have "map (\<lambda>f. d ! ravel [k, 1] (rev (unravel (rev [k, 1]) f))) [0 ..< k]
      = map (\<lambda>f. d ! f) [0 ..< k]"
    by (rule map_cong) auto
  also have "\<dots> = d" unfolding assms[symmetric] by (rule map_nth)
  finally show ?thesis by (simp add: np_T_def)
qed

lemma broadcast_scalar: "broadcast_to (scalar x) [k] = Inr (replicate k x)"
proof -
  have "map (\<lambda>f. [x] ! ravel [Suc 0] (map2 (\<lambda>sd i. if sd = Suc 0 then 0 else i) [Suc 0] (unravel [k] f)))
          [0 ..< k] = map (\<lambda>f. x) [0 ..< k]"
    by (rule map_cong) auto
  then show ?thesis by (simp add: broadcast_to_def scalar_def map_replicate_const)
qed

lemma offset_div_mod: "j < k \<Longrightarrow> (a * k + j) div k = a \<and> (a * k + j) mod k = j"
  for a j k :: nat
  by simp

lemma offset_inj:
  assumes "j < k" and "j' < k" and "a * k + j = a' * k + j'"
  shows "a = a' \<and> j = (j' :: nat)"
proof -
  have "(a * k + j) div k = a" "(a * k + j) mod k = j" using assms(1) by simp_all
  moreover have "(a' * k + j') div k = a'" "(a' * k + j') mod k = j'" using assms(2) by simp_all
  ultimately show ?thesis using assms(3) by metis
qed

text \<open>Writing ones at the points \<open>(F ! j, j)\<close> of a zero matrix with \<open>k\<close> columns.\<close>

lemma one_hot_columns:
  assumes "length F = k" and "\<forall>q \<in> set F. q < T" and "i < T" and "j < k"
  defines "offs \<equiv> map (\<lambda>j. F ! j * k + j) [0 ..< k]"
  shows "write_blocks (replicate (T * k) (Fin 0)) (zip offs (map (\<lambda>x. [x]) (replicate k (Fin 1))))
           ! (i * k + j) = (if i = F ! j then Fin 1 else Fin 0)"
proof -
  let ?z = "replicate (T * k) (Fin 0 :: float64)"
  let ?vs = "replicate k (Fin 1 :: float64)"
  have bnd: "\<forall>q \<in> set offs. q < length ?z"
  proof
    fix q assume "q \<in> set offs"
    then obtain j' where j': "j' < k" "q = F ! j' * k + j'" by (auto simp: offs_def)
    then have "F ! j' < T" using assms(1,2) by simp
    then have "Suc (F ! j') * k \<le> T * k" by (intro mult_le_mono1) simp
    then show "q < length ?z" using j' by simp
  qed
  have dist: "distinct offs"
    unfolding offs_def distinct_conv_nth
  proof (intro allI impI)
    fix x y assume "x < length (map (\<lambda>j. F ! j * k + j) [0 ..< k])"
      "y < length (map (\<lambda>j. F ! j * k + j) [0 ..< k])" "x \<noteq> y"
    then show "map (\<lambda>j. F ! j * k + j) [0 ..< k] ! x \<noteq> map (\<lambda>j. F ! j * k + j) [0 ..< k] ! y"
      using offset_inj[of x k y "F ! x" "F ! y"] by auto
  qed
  have lo: "length offs = k" by (simp add: offs_def)
  show ?thesis
  proof (cases "i = F ! j")
    case True
    have "write_blocks ?z (zip offs (map (\<lambda>x. [x]) ?vs)) ! (offs ! j) = ?vs ! j"
      using bnd dist by (rule write_points_hit) (simp_all add: lo assms(4))
    then show ?thesis using True assms(4) by (simp add: offs_def)
  next
    case False
    have "i * k + j \<notin> set offs"
    proof
      assume "i * k + j \<in> set offs"
      then obtain j' where j': "j' < k" "i * k + j = F ! j' * k + j'" by (auto simp: offs_def)
      then have "i = F ! j' \<and> j = j'" using assms(4) by (intro offset_inj) simp_all
      then show False using False by simp
    qed
    with bnd have "write_blocks ?z (zip offs (map (\<lambda>x. [x]) ?vs)) ! (i * k + j) = ?z ! (i * k + j)"
      by (rule write_points_other)
    moreover have "i * k + j < T * k"
    proof -
      have "Suc i * k \<le> T * k" using assms(3) by (intro mult_le_mono1) simp
      then show ?thesis using assms(4) by simp
    qed
    ultimately show ?thesis using False by simp
  qed
qed

lemma censors_data:
  "censors fd = Inr \<lparr>shape = [length fd, length (over_threshold fd)],
     data = write_blocks (replicate (length fd * length (over_threshold fd)) (Fin 0))
       (zip (map (\<lambda>j. over_threshold fd ! j * length (over_threshold fd) + j)
                 [0 ..< length (over_threshold fd)])
            (map (\<lambda>x. [x]) (replicate (length (over_threshold fd)) (Fin 1))))\<rparr>"
proof -
  let ?F = "over_threshold fd"
  let ?k = "length ?F"
  let ?T = "length fd"
  let ?c = "[map int ?F, np_arange ?k]"
  let ?ps = "map (\<lambda>j. [?F ! j, j]) [0 ..< ?k]"
  have FT: "\<forall>q \<in> set ?F. q < ?T" by (auto simp: over_threshold_def)
  have la: "list_all (\<lambda>a. length a = ?k) ?c" by (simp add: np_arange_def)
  have bl: "bcast_len ?c = Some ?k" using la by (intro bcast_len_equal) simp_all
  have "index_rows ?c ?k = map (\<lambda>j. map (\<lambda>a. a ! j) ?c) [0 ..< ?k]"
    using la by (rule index_rows_equal)
  also have "\<dots> = map (map int) ?ps" by (simp add: np_arange_def)
  finally have ir: "index_rows ?c ?k = map (map int) ?ps" .
  have "\<forall>p \<in> set ?ps. list_all2 (<) p [?T, ?k]" using FT by auto
  then have np: "norm_positions [?T, ?k] (index_rows ?c ?k) = Inr ?ps"
    unfolding ir by (rule norm_positions_nat)
  have offs: "map (ravel [?T, ?k]) ?ps = map (\<lambda>j. ?F ! j * ?k + j) [0 ..< ?k]" by simp
  have blocks: "map (\<lambda>j. block (replicate ?k (Fin 1 :: float64)) j (Suc 0)) [0 ..< ?k]
      = map (\<lambda>x. [x]) (replicate ?k (Fin 1))"
    by (rule points_blocks) simp
  have "setitem (np_zeros [?T, ?k]) ?c (scalar (Fin 1))
      = Inr \<lparr>shape = [?T, ?k],
          data = write_blocks (replicate (?T * ?k) (Fin 0))
            (zip (map (\<lambda>j. ?F ! j * ?k + j) [0 ..< ?k])
                 (map (\<lambda>x. [x]) (replicate ?k (Fin 1))))\<rparr>"
    using bl np by (simp add: setitem_def np_zeros_def broadcast_scalar blocks comp_def)
  then show ?thesis
    by (simp add: censors_def fd_nan_to_zero_data bad_vols_data np_T_column[unfolded One_nat_def] Let_def)
qed

subsection \<open>Stacking columns\<close>

lemma rows_nth:
  assumes "\<forall>i < T. length (f i) = w" and "r < T" and "k < w"
  shows "concat (map f [0 ..< T]) ! (r * w + k) = f r ! k"
proof -
  have "\<forall>x \<in> set [0 ..< T]. length (f x) = w" using assms(1) by simp
  then have "concat (map f [0 ..< T]) ! (r * w + k) = f ([0 ..< T] ! r) ! k"
    using assms(2,3) by (intro concat_blocks_nth) simp_all
  then show ?thesis using assms(2) by simp
qed

lemma rows_length:
  assumes "\<forall>i < T. length (f i) = w"
  shows "length (concat (map f [0 ..< T])) = T * w"
proof -
  have "\<forall>x \<in> set [0 ..< T]. length (f x) = w" using assms by simp
  then have "length (concat (map f [0 ..< T])) = length [0 ..< T] * w"
    by (rule length_concat_blocks)
  then show ?thesis by simp
qed

lemma block_fits: "r < T \<Longrightarrow> length d = T * w \<Longrightarrow> Suc r * w \<le> length d"
proof -
  assume "r < T" "length d = T * w"
  then have "Suc r * w \<le> T * w" by (intro mult_le_mono1) simp
  then show ?thesis using \<open>length d = T * w\<close> by simp
qed

lemma block_elem:
  assumes "Suc off * blk \<le> length d" and "j < blk"
  shows "block d off blk ! j = d ! (off * blk + j)"
proof -
  have "block d off blk ! j = map (\<lambda>j. d ! (off * blk + j)) [0 ..< blk] ! j"
    using assms(1) by (simp only: block_nth)
  then show ?thesis using assms(2) by simp
qed

lemma column_stack_2d:
  assumes "shape a = [T, p]" and "shape b = [T, q]"
  shows "column_stack [a, b] = Inr \<lparr>shape = [T, p + q],
           data = concat (map (\<lambda>i. block (data a) i p @ block (data b) i q) [0 ..< T])\<rparr>"
  using assms by (simp add: column_stack_def concat_axis1_def as_column_def)

lemma confounds_data:
  assumes "shape nuisance = [T, b]"
  shows "confounds nuisance T = Inr \<lparr>shape = [T, b + 1],
           data = concat (map (\<lambda>i. block (data nuisance) i b @ block (replicate T (Fin 1)) i 1)
                              [0 ..< T])\<rparr>"
  using assms by (simp add: confounds_def column_stack_def concat_axis1_def as_column_def np_ones_def)

subsection \<open>One value scattered to a coordinate set\<close>

lemma norm_position_wrap:
  "list_all2 (\<lambda>i d. - int d \<le> i \<and> i < int d) r ds \<Longrightarrow>
   norm_position ds r = Inr (map2 wrap_index ds r)
   \<and> list_all2 (<) (map2 wrap_index ds r) ds"
  by (induction r ds rule: list_all2_induct) (auto simp: norm_index_def wrap_index_def)

lemma norm_positions_map:
  "\<forall>r \<in> set rs. norm_position ds r = Inr (f r) \<Longrightarrow> norm_positions ds rs = Inr (map f rs)"
  by (induction rs) auto

lemma norm_positions_wrapped:
  assumes "coords_ok s c n"
  shows "norm_positions s (index_rows c n) = Inr (map (position_in s c) [0 ..< n])"
    and "\<forall>j < n. list_all2 (<) (position_in s c j) s"
proof -
  have la: "list_all (\<lambda>a. length a = n) c" using assms by (simp add: coords_ok_lengths)
  have row: "norm_position s (map (\<lambda>a. a ! j) c) = Inr (position_in s c j)
      \<and> list_all2 (<) (position_in s c j) s" if "j < n" for j
    unfolding position_in_def
    using coords_ok_row[OF assms that] by (rule norm_position_wrap)
  then show "\<forall>j < n. list_all2 (<) (position_in s c j) s" by simp
  have "\<forall>r \<in> set (map (\<lambda>j. map (\<lambda>a. a ! j) c) [0 ..< n]).
      norm_position s r = Inr (map2 wrap_index s r)"
    using row by (auto simp: position_in_def)
  then have "norm_positions s (map (\<lambda>j. map (\<lambda>a. a ! j) c) [0 ..< n])
      = Inr (map (\<lambda>r. map2 wrap_index s r) (map (\<lambda>j. map (\<lambda>a. a ! j) c) [0 ..< n]))"
    by (rule norm_positions_map)
  then show "norm_positions s (index_rows c n) = Inr (map (position_in s c) [0 ..< n])"
    by (simp add: index_rows_equal[OF la] position_in_def comp_def)
qed

lemma write_points_const:
  "\<forall>q \<in> set offs. q < length d \<Longrightarrow> i < length d \<Longrightarrow>
   write_blocks d (zip offs (map (\<lambda>x. [x]) (replicate (length offs) x))) ! i
     = (if i \<in> set offs then x else d ! i)"
proof (induction offs arbitrary: d)
  case Nil
  then show ?case by simp
next
  case (Cons q offs)
  have "write_blocks d (zip (q # offs) (map (\<lambda>x. [x]) (replicate (length (q # offs)) x))) ! i
      = write_blocks (d[q := x]) (zip offs (map (\<lambda>x. [x]) (replicate (length offs) x))) ! i"
    using Cons.prems(1) by (simp add: write_block_one)
  also have "\<dots> = (if i \<in> set offs then x else d[q := x] ! i)"
    using Cons.prems by (intro Cons.IH) simp_all
  also have "\<dots> = (if i \<in> set (q # offs) then x else d ! i)"
    using Cons.prems by auto
  finally show ?case .
qed

lemma broadcast_one:
  assumes "shape v = [1]"
  shows "broadcast_to v [n] = Inr (replicate n (data v ! 0))"
proof -
  have "map (\<lambda>f. data v ! ravel [Suc 0]
            (map2 (\<lambda>sd i. if sd = Suc 0 then 0 else i) [Suc 0] (unravel [n] f))) [0 ..< n]
      = map (\<lambda>f. data v ! 0) [0 ..< n]"
    by (rule map_cong) auto
  then show ?thesis by (simp add: broadcast_to_def assms map_replicate_const)
qed

lemma ravel_inj:
  assumes "list_all2 (<) p ds" and "list_all2 (<) q ds" and "ravel ds p = ravel ds q"
  shows "p = q"
proof -
  have "p = unravel ds (ravel ds p)" using assms(1) by (simp add: unravel_ravel)
  also have "\<dots> = unravel ds (ravel ds q)" by (simp only: assms(3))
  also have "\<dots> = q" using assms(2) by (simp add: unravel_ravel)
  finally show ?thesis .
qed

text \<open>One value scattered to a coordinate set inside the target shape.\<close>

lemma scatter_one_value:
  assumes "c \<noteq> []" and "coords_ok s c n" and "shape v = [1]"
  shows "\<exists>r. scatter v c s = Inr r \<and> shape r = s
      \<and> (\<forall>p. in_bounds s p \<longrightarrow>
            elem r p = (if \<exists>j<n. p = position_in s c j then data v ! 0 else Fin 0))"
proof -
  let ?x = "data v ! 0"
  let ?ps = "map (position_in s c) [0 ..< n]"
  let ?offs = "map (ravel s) ?ps"
  let ?z = "replicate (prod_list s) (Fin 0 :: float64)"
  let ?d = "write_blocks ?z (zip ?offs (map (\<lambda>x. [x]) (replicate n ?x)))"
  have l: "length c = length s" and la: "list_all (\<lambda>a. length a = n) c"
    using assms(2) by (simp_all add: coords_ok_lengths)
  have bl: "bcast_len c = Some n" using assms(1) la by (rule bcast_len_equal)
  have np: "norm_positions s (index_rows c n) = Inr ?ps"
    and inb: "\<forall>j < n. list_all2 (<) (position_in s c j) s"
    using norm_positions_wrapped[OF assms(2)] by simp_all
  have bc: "broadcast_to v [n] = Inr (replicate n ?x)" using assms(3) by (rule broadcast_one)
  have blocks: "map (\<lambda>j. block (replicate n ?x) j (Suc 0)) [0 ..< n]
      = map (\<lambda>x. [x]) (replicate n ?x)"
    by (rule points_blocks) simp
  have sc: "scatter v c s = Inr \<lparr>shape = s, data = ?d\<rparr>"
    using assms(1) l bl np bc blocks
    by (simp add: scatter_def setitem_def np_zeros_def Let_def)
  have bnd: "\<forall>q \<in> set ?offs. q < length ?z"
    using inb by (auto simp: ravel_lt)
  have lo: "length ?offs = n" by simp
  have "elem \<lparr>shape = s, data = ?d\<rparr> p
      = (if \<exists>j<n. p = position_in s c j then ?x else Fin 0)"
    if p: "in_bounds s p" for p
  proof -
    have pb: "list_all2 (<) p s" using p by (simp add: in_bounds_def)
    then have i: "ravel s p < length ?z" by (simp add: ravel_lt)
    have "write_blocks ?z (zip ?offs (map (\<lambda>x. [x]) (replicate (length ?offs) ?x))) ! ravel s p
        = (if ravel s p \<in> set ?offs then ?x else ?z ! ravel s p)"
      using bnd i by (rule write_points_const)
    then have w: "?d ! ravel s p = (if ravel s p \<in> set ?offs then ?x else Fin 0)"
      using i by (simp only: lo) simp
    have "ravel s p \<in> set ?offs \<longleftrightarrow> (\<exists>j<n. p = position_in s c j)"
    proof
      assume "ravel s p \<in> set ?offs"
      then obtain j where j: "j < n" "ravel s p = ravel s (position_in s c j)" by auto
      then have "p = position_in s c j" using pb inb by (intro ravel_inj[of _ s]) simp_all
      then show "\<exists>j<n. p = position_in s c j" using j(1) by blast
    next
      assume "\<exists>j<n. p = position_in s c j"
      then show "ravel s p \<in> set ?offs" by auto
    qed
    then show ?thesis using w by (simp add: elem_def)
  qed
  then show ?thesis using sc by auto
qed

section \<open>The worked example of the spec\<close>

text \<open>
  C8. The 4 by 4 grid holding 0..15 in order and the mask true exactly at (1,1) and
  (2,2): the coordinate set is the two positions in that order, gathering returns
  [5, 10], and scattering [5, 10] into shape (4,4) gives the grid that is zero everywhere
  except 5 at (1,1) and 10 at (2,2).
\<close>

theorem example_4x4:
  "mask_coords \<lparr>shape = [4, 4],
      data = [False, False, False, False,
              False, True, False, False,
              False, False, True, False,
              False, False, False, False]\<rparr> = Inr [[1, 2], [1, 2]]
   \<and> bold_masked \<lparr>shape = [4, 4],
      data = [Fin 0, Fin 1, Fin 2, Fin 3,
              Fin 4, Fin 5, Fin 6, Fin 7,
              Fin 8, Fin 9, Fin 10, Fin 11,
              Fin 12, Fin 13, Fin 14, Fin 15]\<rparr> [[1, 2], [1, 2]]
       = Inr \<lparr>shape = [2], data = [Fin 5, Fin 10]\<rparr>
   \<and> scatter \<lparr>shape = [2], data = [Fin 5, Fin 10]\<rparr> [[1, 2], [1, 2]] [4, 4]
       = Inr \<lparr>shape = [4, 4],
          data = [Fin 0, Fin 0, Fin 0, Fin 0,
                  Fin 0, Fin 5, Fin 0, Fin 0,
                  Fin 0, Fin 0, Fin 10, Fin 0,
                  Fin 0, Fin 0, Fin 0, Fin 0]\<rparr>"
  by code_simp

section \<open>The round trip through the mask\<close>

text \<open>
  C1, as the notebooks have it. For a mask \<open>m\<close> of at least one axis and a grid \<open>g\<close>:
  \<^item> when \<open>g\<close> has no time axis (its shape is the mask's, of any dimensionality),
    \<open>scatter (bold_masked g c) c (shape g)\<close> with \<open>c = mask_coords m\<close> is defined, equals
    \<open>g\<close> at every position where \<open>m\<close> is true and is zero at every other position;
  \<^item> when \<open>g\<close> has a trailing time axis of length \<open>T\<close>, the gathered matrix is time by
    position, and for every time point \<open>t < T\<close> scattering row \<open>t\<close> of it into the
    mask's shape gives the volume of \<open>g\<close> at time \<open>t\<close> where \<open>m\<close> is true and zero
    elsewhere.
\<close>

theorem gather_scatter_roundtrip:
  assumes "wf m" and "shape m \<noteq> []" and "wf g"
  shows "(shape g = shape m \<longrightarrow>
            (\<exists>c v r. mask_coords m = Inr c \<and> bold_masked g c = Inr v
               \<and> scatter v c (shape g) = Inr r \<and> shape r = shape g
               \<and> (\<forall>p. in_bounds (shape g) p \<longrightarrow>
                     elem r p = (if elem m p then elem g p else Fin 0))))
       \<and> (shape g = shape m @ [T] \<longrightarrow>
            (\<forall>t < T. \<exists>c v row r. mask_coords m = Inr c \<and> bold_masked g c = Inr v
               \<and> getrow v (int t) = Inr row
               \<and> scatter row c (shape m) = Inr r \<and> shape r = shape m
               \<and> (\<forall>p. in_bounds (shape m) p \<longrightarrow>
                     elem r p = (if elem m p then elem g (p @ [t]) else Fin 0))))"
proof (intro conjI impI allI)
  let ?F = "nonzero_flat (data m)"
  obtain c where c: "np_where m = Inr c"
    using where_positions[OF assms(2,1)] by blast
  have Fb: "\<forall>i \<in> set ?F. i < prod_list (shape m)"
    using assms(1) by (auto simp: set_nonzero_flat wf_def)
  {
    assume sg: "shape g = shape m"
    then have "shape g = shape m @ []" by simp
    from getitem_where[OF assms(2,1) this c]
    have "getitem g c = Inr \<lparr>shape = [length ?F],
        data = concat (map (\<lambda>i. block (data g) i (Suc 0)) ?F)\<rparr>" by simp
    moreover have "concat (map (\<lambda>i. block (data g) i (Suc 0)) ?F) = map (\<lambda>i. data g ! i) ?F"
      using Fb assms(3) sg by (intro gathered_points) (simp add: wf_def)
    ultimately have gi: "getitem g c = Inr \<lparr>shape = [length ?F], data = map (\<lambda>i. data g ! i) ?F\<rparr>"
      by simp
    have bm: "bold_masked g c = Inr \<lparr>shape = [length ?F], data = map (\<lambda>i. data g ! i) ?F\<rparr>"
      by (simp add: bold_masked_def gi np_T_1d)
    from scatter_of_mask_values[OF assms(2,1) c, of "\<lambda>i. data g ! i"]
    obtain r where "scatter \<lparr>shape = [length ?F], data = map (\<lambda>i. data g ! i) ?F\<rparr> c (shape m) = Inr r"
      "shape r = shape m"
      "\<forall>p. in_bounds (shape m) p \<longrightarrow> elem r p = (if elem m p then data g ! ravel (shape m) p else Fin 0)"
      by blast
    then show "\<exists>c v r. mask_coords m = Inr c \<and> bold_masked g c = Inr v
               \<and> scatter v c (shape g) = Inr r \<and> shape r = shape g
               \<and> (\<forall>p. in_bounds (shape g) p \<longrightarrow>
                     elem r p = (if elem m p then elem g p else Fin 0))"
      using c bm sg by (auto simp: mask_coords_def elem_def)
  }
  {
    fix t assume sg: "shape g = shape m @ [T]" and t: "t < T"
    let ?D = "concat (map (\<lambda>i. block (data g) i T) ?F)"
    have lg: "length (data g) = prod_list (shape m) * T"
      using assms(3) sg by (simp add: wf_def)
    from getitem_where[OF assms(2,1) sg c]
    have gi: "getitem g c = Inr \<lparr>shape = [length ?F, T], data = ?D\<rparr>" by simp
    have fit: "\<And>i. i \<in> set ?F \<Longrightarrow> Suc i * T \<le> length (data g)"
    proof -
      fix i assume "i \<in> set ?F"
      then have "Suc i \<le> prod_list (shape m)" using Fb by auto
      then have "Suc i * T \<le> prod_list (shape m) * T" by (rule mult_le_mono1)
      then show "Suc i * T \<le> length (data g)" by (simp only: lg)
    qed
    then have "\<forall>i \<in> set ?F. length (block (data g) i T) = T" by (simp add: length_block)
    then have lD: "length ?D = length ?F * T" by (rule length_concat_blocks)
    let ?v = "np_T \<lparr>shape = [length ?F, T], data = ?D\<rparr>"
    have bm: "bold_masked g c = Inr ?v" by (simp add: bold_masked_def gi)
    have "getrow ?v (int t) = Inr \<lparr>shape = [length ?F],
        data = map (\<lambda>j. ?D ! (j * T + t)) [0 ..< length ?F]\<rparr>"
      using lD t by (rule row_of_T)
    moreover have "map (\<lambda>j. ?D ! (j * T + t)) [0 ..< length ?F] = map (\<lambda>i. data g ! (i * T + t)) ?F"
      using Fb lg t by (rule gathered_rows)
    ultimately have row: "getrow ?v (int t) = Inr \<lparr>shape = [length ?F],
        data = map (\<lambda>i. data g ! (i * T + t)) ?F\<rparr>" by simp
    from scatter_of_mask_values[OF assms(2,1) c, of "\<lambda>i. data g ! (i * T + t)"]
    obtain r where r: "scatter \<lparr>shape = [length ?F], data = map (\<lambda>i. data g ! (i * T + t)) ?F\<rparr> c (shape m) = Inr r"
      "shape r = shape m"
      "\<forall>p. in_bounds (shape m) p \<longrightarrow>
          elem r p = (if elem m p then data g ! (ravel (shape m) p * T + t) else Fin 0)"
      by blast
    have "elem g (p @ [t]) = data g ! (ravel (shape m) p * T + t)" if "in_bounds (shape m) p" for p
    proof -
      have "length p = length (shape m)"
        using that by (simp add: in_bounds_def list_all2_lengthD)
      then show ?thesis by (simp add: elem_def sg ravel_append)
    qed
    with r(3) have "\<forall>p. in_bounds (shape m) p \<longrightarrow>
          elem r p = (if elem m p then elem g (p @ [t]) else Fin 0)" by simp
    then show "\<exists>c v row r. mask_coords m = Inr c \<and> bold_masked g c = Inr v
               \<and> getrow v (int t) = Inr row
               \<and> scatter row c (shape m) = Inr r \<and> shape r = shape m
               \<and> (\<forall>p. in_bounds (shape m) p \<longrightarrow>
                     elem r p = (if elem m p then elem g (p @ [t]) else Fin 0))"
      using c bm row r(1,2) unfolding mask_coords_def by blast
  }
qed

theorem gather_scatter_roundtrip_witness:
  "(\<exists>c v r. mask_coords \<lparr>shape = [2, 2], data = [False, True, False, True]\<rparr> = Inr c
      \<and> bold_masked \<lparr>shape = [2, 2], data = [Fin 1, Fin 2, Fin 3, Fin 4]\<rparr> c = Inr v
      \<and> scatter v c [2, 2] = Inr r \<and> shape r = [2, 2]
      \<and> elem r [0, 1] = Fin 2 \<and> elem r [1, 0] = Fin 0)
   \<and> (\<exists>c v row r. mask_coords \<lparr>shape = [2], data = [False, True]\<rparr> = Inr c
      \<and> bold_masked \<lparr>shape = [2, 3],
            data = [Fin 1, Fin 2, Fin 3, Fin 4, Fin 5, Fin 6]\<rparr> c = Inr v
      \<and> getrow v 1 = Inr row
      \<and> scatter row c [2] = Inr r \<and> shape r = [2]
      \<and> elem r [1] = Fin 5 \<and> elem r [0] = Fin 0)"
proof (rule conjI)
  let ?m = "\<lparr>shape = [2, 2], data = [False, True, False, True]\<rparr>"
  let ?g = "\<lparr>shape = [2, 2], data = [Fin 1, Fin 2, Fin 3, Fin 4]\<rparr>"
  have h: "wf ?m" "shape ?m \<noteq> []" "wf ?g" by (simp_all add: wf_def)
  from gather_scatter_roundtrip[OF h, of 0]
  obtain c v r where r: "mask_coords ?m = Inr c" "bold_masked ?g c = Inr v"
    "scatter v c [2, 2] = Inr r" "shape r = [2, 2]"
    "\<forall>p. in_bounds [2, 2] p \<longrightarrow> elem r p = (if elem ?m p then elem ?g p else Fin 0)"
    by auto
  have "elem r [0, 1] = Fin 2" "elem r [1, 0] = Fin 0"
    using r(5) by (simp_all add: in_bounds_def elem_def)
  then show "\<exists>c v r. mask_coords ?m = Inr c \<and> bold_masked ?g c = Inr v
      \<and> scatter v c [2, 2] = Inr r \<and> shape r = [2, 2]
      \<and> elem r [0, 1] = Fin 2 \<and> elem r [1, 0] = Fin 0"
    using r(1-4) by blast
next
  let ?m = "\<lparr>shape = [2], data = [False, True]\<rparr>"
  let ?g = "\<lparr>shape = [2, 3], data = [Fin 1, Fin 2, Fin 3, Fin 4, Fin 5, Fin 6]\<rparr>"
  have h: "wf ?m" "shape ?m \<noteq> []" "wf ?g" by (simp_all add: wf_def)
  from gather_scatter_roundtrip[OF h, of 3]
  have "\<forall>t < 3. \<exists>c v row r. mask_coords ?m = Inr c \<and> bold_masked ?g c = Inr v
      \<and> getrow v (int t) = Inr row \<and> scatter row c [2] = Inr r \<and> shape r = [2]
      \<and> (\<forall>p. in_bounds [2] p \<longrightarrow> elem r p = (if elem ?m p then elem ?g (p @ [t]) else Fin 0))"
    by simp
  then have "\<exists>c v row r. mask_coords ?m = Inr c \<and> bold_masked ?g c = Inr v
      \<and> getrow v (int 1) = Inr row \<and> scatter row c [2] = Inr r \<and> shape r = [2]
      \<and> (\<forall>p. in_bounds [2] p \<longrightarrow> elem r p = (if elem ?m p then elem ?g (p @ [1]) else Fin 0))"
    by (rule allE[where x = 1]) simp
  then obtain c v row r where r: "mask_coords ?m = Inr c" "bold_masked ?g c = Inr v"
    "getrow v 1 = Inr row" "scatter row c [2] = Inr r" "shape r = [2]"
    "\<forall>p. in_bounds [2] p \<longrightarrow> elem r p = (if elem ?m p then elem ?g (p @ [1]) else Fin 0)"
    by auto
  have "elem r [1] = Fin 5" "elem r [0] = Fin 0"
    using r(6) by (simp_all add: in_bounds_def elem_def)
  then show "\<exists>c v row r. mask_coords ?m = Inr c \<and> bold_masked ?g c = Inr v
      \<and> getrow v 1 = Inr row \<and> scatter row c [2] = Inr r \<and> shape r = [2]
      \<and> elem r [1] = Fin 5 \<and> elem r [0] = Fin 0"
    using r(1-5) by blast
qed

text \<open>
  The round trip as the claim writes it, on a grid with a time axis. A surface of two
  vertices, both in the mask, with two time points: the gathered matrix is time by
  vertex, and scattering it into the grid's shape writes it transposed, so the result
  holds 3 at vertex 0, time 1, where the grid holds 2. With three time points the
  gathered matrix has shape (3, 2), the indexing result has shape (2, 3), and the
  assignment is refused.
\<close>

theorem roundtrip_time_axis_counterexample:
  "mask_coords \<lparr>shape = [2], data = [True, True]\<rparr> = Inr [[0, 1]]
   \<and> bold_masked \<lparr>shape = [2, 2], data = [Fin 1, Fin 2, Fin 3, Fin 4]\<rparr> [[0, 1]]
       = Inr \<lparr>shape = [2, 2], data = [Fin 1, Fin 3, Fin 2, Fin 4]\<rparr>
   \<and> scatter \<lparr>shape = [2, 2], data = [Fin 1, Fin 3, Fin 2, Fin 4]\<rparr> [[0, 1]] [2, 2]
       = Inr \<lparr>shape = [2, 2], data = [Fin 1, Fin 3, Fin 2, Fin 4]\<rparr>
   \<and> elem \<lparr>shape = [2, 2], data = [Fin 1, Fin 3, Fin 2, Fin 4]\<rparr> [0, 1] = Fin 3
   \<and> elem \<lparr>shape = [2, 2], data = [Fin 1, Fin 2, Fin 3, Fin 4]\<rparr> [0, 1] = Fin 2
   \<and> bold_masked \<lparr>shape = [2, 3],
         data = [Fin 1, Fin 2, Fin 3, Fin 4, Fin 5, Fin 6]\<rparr> [[0, 1]]
       = Inr \<lparr>shape = [3, 2], data = [Fin 1, Fin 4, Fin 2, Fin 5, Fin 3, Fin 6]\<rparr>
   \<and> scatter \<lparr>shape = [3, 2], data = [Fin 1, Fin 4, Fin 2, Fin 5, Fin 3, Fin 6]\<rparr>
         [[0, 1]] [2, 3] = Inl ValueError"
  by code_simp

section \<open>The coordinate set of a mask\<close>

text \<open>
  C5. \<open>mask_coords\<close> is a function of the mask, so two calls with the same mask return
  the same coordinate set. For a mask of at least one axis it returns one index array per
  axis, each as long as the number of true entries of the mask; every position it lists
  is a true entry of the mask, and the positions come in strictly increasing row-major
  order (so each true entry is listed once). For a one-dimensional label array,
  \<open>roi_vertices\<close> is the increasing list of the vertices that carry the label.
\<close>

theorem mask_coords_count_and_order:
  assumes "wf m" and "shape m \<noteq> []"
  shows "(\<exists>c. mask_coords m = Inr c \<and> length c = length (shape m)
          \<and> list_all (\<lambda>a. length a = length (filter id (data m))) c
          \<and> (\<forall>j < length (filter id (data m)).
                in_bounds (shape m) (position c j) \<and> elem m (position c j))
          \<and> sorted_wrt (<) (map (\<lambda>j. ravel (shape m) (position c j))
                                [0 ..< length (filter id (data m))]))
       \<and> (shape parcellation = [V] \<and> wf parcellation \<longrightarrow>
            roi_vertices parcellation l
              = Inr (map int (filter (\<lambda>i. data parcellation ! i = l) [0 ..< V])))"
proof (rule conjI)
  let ?F = "nonzero_flat (data m)"
  let ?n = "length (filter id (data m))"
  have n: "length ?F = ?n" by (rule length_nonzero_flat)
  from where_positions[OF assms(2,1)]
  obtain c where c: "np_where m = Inr c" "length c = length (shape m)"
    "list_all (\<lambda>a. length a = length ?F) c" by blast
  have Fb: "\<And>j. j < ?n \<Longrightarrow> ?F ! j < prod_list (shape m) \<and> data m ! (?F ! j)"
  proof -
    fix j assume "j < ?n"
    then have "?F ! j \<in> set ?F" by (simp add: n)
    then show "?F ! j < prod_list (shape m) \<and> data m ! (?F ! j)"
      using assms(1) by (simp add: set_nonzero_flat wf_def)
  qed
  have pos: "\<And>j. j < ?n \<Longrightarrow> position c j = unravel (shape m) (?F ! j)"
    using where_position[OF assms(2) c(1)] by (simp add: n)
  have rav: "\<And>j. j < ?n \<Longrightarrow> ravel (shape m) (position c j) = ?F ! j"
    using pos Fb by (simp add: ravel_unravel)
  have inb: "\<forall>j < ?n. in_bounds (shape m) (position c j) \<and> elem m (position c j)"
  proof (intro allI impI)
    fix j assume j: "j < ?n"
    have "in_bounds (shape m) (position c j)"
      using pos[OF j] Fb[OF j] by (simp add: in_bounds_def unravel_in_bounds)
    moreover have "elem m (position c j)"
      using rav[OF j] Fb[OF j] by (simp add: elem_def)
    ultimately show "in_bounds (shape m) (position c j) \<and> elem m (position c j)" ..
  qed
  have "map (\<lambda>j. ravel (shape m) (position c j)) [0 ..< ?n] = map (\<lambda>j. ?F ! j) [0 ..< ?n]"
    using rav by (intro map_cong) simp_all
  also have "\<dots> = ?F" unfolding n[symmetric] by (rule map_nth)
  finally have "sorted_wrt (<) (map (\<lambda>j. ravel (shape m) (position c j)) [0 ..< ?n])"
    by (simp only: sorted_nonzero_flat)
  then show "\<exists>c. mask_coords m = Inr c \<and> length c = length (shape m)
          \<and> list_all (\<lambda>a. length a = ?n) c
          \<and> (\<forall>j < ?n. in_bounds (shape m) (position c j) \<and> elem m (position c j))
          \<and> sorted_wrt (<) (map (\<lambda>j. ravel (shape m) (position c j)) [0 ..< ?n])"
    using c inb by (auto simp: mask_coords_def n)
next
  show "shape parcellation = [V] \<and> wf parcellation \<longrightarrow>
            roi_vertices parcellation l
              = Inr (map int (filter (\<lambda>i. data parcellation ! i = l) [0 ..< V]))"
  proof
    assume a: "shape parcellation = [V] \<and> wf parcellation"
    let ?b = "\<lparr>shape = shape parcellation, data = map (\<lambda>x. x = l) (data parcellation)\<rparr>"
    have "shape ?b = [V]" "wf ?b" using a by (simp_all add: wf_def)
    then have "np_where ?b = Inr [map int (nonzero_flat (data ?b))]" by (rule where_1d)
    moreover have "length (data parcellation) = V" using a by (simp add: wf_def)
    ultimately show "roi_vertices parcellation l
              = Inr (map int (filter (\<lambda>i. data parcellation ! i = l) [0 ..< V]))"
      by (simp add: roi_vertices_def nonzero_flat_map)
  qed
qed

theorem mask_coords_count_and_order_witness:
  "(\<exists>c. mask_coords \<lparr>shape = [2, 2], data = [False, True, True, False]\<rparr> = Inr c
       \<and> length c = 2 \<and> list_all (\<lambda>a. length a = 2) c
       \<and> elem \<lparr>shape = [2, 2], data = [False, True, True, False]\<rparr> (position c 0)
       \<and> elem \<lparr>shape = [2, 2], data = [False, True, True, False]\<rparr> (position c 1)
       \<and> sorted_wrt (<) [ravel [2, 2] (position c 0), ravel [2, 2] (position c 1)])
   \<and> roi_vertices \<lparr>shape = [4], data = [7, 3, 7, 5]\<rparr> 7 = Inr [0, 2]"
proof (rule conjI)
  let ?m = "\<lparr>shape = [2, 2], data = [False, True, True, False]\<rparr>"
  let ?p = "\<lparr>shape = [4], data = [7, 3, 7, 5 :: int]\<rparr>"
  have h: "wf ?m" "shape ?m \<noteq> []" by (simp_all add: wf_def)
  note t = mask_coords_count_and_order[OF h, of ?p 4 7]
  from t obtain c where c: "mask_coords ?m = Inr c" "length c = 2"
    "list_all (\<lambda>a. length a = 2) c"
    "\<forall>j < 2. in_bounds [2, 2] (position c j) \<and> elem ?m (position c j)"
    "sorted_wrt (<) (map (\<lambda>j. ravel [2, 2] (position c j)) [0 ..< 2])"
    by (auto simp: numeral_2_eq_2)
  have "[0 ..< 2] = [0, 1 :: nat]" by (simp add: upt_rec)
  then have "sorted_wrt (<) [ravel [2, 2] (position c 0), ravel [2, 2] (position c 1)]"
    using c(5) by simp
  moreover have "elem ?m (position c 0)" "elem ?m (position c 1)" using c(4) by simp_all
  ultimately show "\<exists>c. mask_coords ?m = Inr c
       \<and> length c = 2 \<and> list_all (\<lambda>a. length a = 2) c
       \<and> elem ?m (position c 0) \<and> elem ?m (position c 1)
       \<and> sorted_wrt (<) [ravel [2, 2] (position c 0), ravel [2, 2] (position c 1)]"
    using c(1-3) by blast
  have "wf ?p" by (simp add: wf_def)
  then have "roi_vertices ?p 7 = Inr (map int (filter (\<lambda>i. data ?p ! i = 7) [0 ..< 4]))"
    using t by simp
  moreover have "[0 ..< 4] = [0, 1, 2, 3 :: nat]" by (simp add: upt_rec)
  ultimately show "roi_vertices ?p 7 = Inr [0, 2]" by simp
qed

section \<open>Shape of the gathered data\<close>

text \<open>
  C6. For a coordinate set of \<open>n\<close> positions inside the spatial axes \<open>s\<close> of a grid:
  gathering from a grid of shape \<open>s @ [T]\<close> returns a matrix of shape \<open>(T, n)\<close>, and
  gathering from a grid of shape \<open>s\<close> returns a vector of shape \<open>(n,)\<close>.
\<close>

theorem bold_masked_shape:
  assumes "c \<noteq> []" and "coords_ok s c n"
  shows "(shape g = s @ [T] \<longrightarrow> (\<exists>r. bold_masked g c = Inr r \<and> shape r = [T, n]))
       \<and> (shape g = s \<longrightarrow> (\<exists>r. bold_masked g c = Inr r \<and> shape r = [n]))"
proof (intro conjI impI)
  assume "shape g = s @ [T]"
  from getitem_coords_ok[OF assms this]
  obtain r where "getitem g c = Inr r" "shape r = [n, T]" by blast
  then show "\<exists>r. bold_masked g c = Inr r \<and> shape r = [T, n]"
    by (simp add: bold_masked_def np_T_def)
next
  assume "shape g = s"
  then have "shape g = s @ []" by simp
  from getitem_coords_ok[OF assms this]
  obtain r where "getitem g c = Inr r" "shape r = [n]" by blast
  then show "\<exists>r. bold_masked g c = Inr r \<and> shape r = [n]"
    by (simp add: bold_masked_def np_T_def)
qed

theorem bold_masked_shape_witness:
  "(\<exists>r. bold_masked \<lparr>shape = [4, 4, 3], data = replicate 48 (Fin 0)\<rparr> [[1, 2], [1, 2]] = Inr r
        \<and> shape r = [3, 2])
   \<and> (\<exists>r. bold_masked \<lparr>shape = [4, 4], data = replicate 16 (Fin 0)\<rparr> [[1, 2], [1, 2]] = Inr r
        \<and> shape r = [2])"
  using bold_masked_shape[of "[[1, 2], [1, 2]]" "[4, 4]" 2
          "\<lparr>shape = [4, 4, 3], data = replicate 48 (Fin 0)\<rparr>" 3]
        bold_masked_shape[of "[[1, 2], [1, 2]]" "[4, 4]" 2
          "\<lparr>shape = [4, 4], data = replicate 16 (Fin 0)\<rparr>" 0]
  by (simp add: coords_ok_def)

section \<open>Failures of the three operations\<close>

text \<open>
  C2, as the notebooks have it. \<open>mask_coords\<close> takes the mask alone, so no grid is
  consulted, and for a mask of at least one axis it never fails: it returns one index
  array per axis, and when the mask has no true entry every index array is empty.
\<close>

theorem mask_coords_never_fails:
  assumes "shape m \<noteq> []"
  shows "\<exists>c. mask_coords m = Inr c \<and> length c = length (shape m)
       \<and> (list_all (\<lambda>b. \<not> b) (data m) \<longrightarrow> list_all (\<lambda>a. a = []) c)"
proof -
  have "list_all (\<lambda>b. \<not> b) (data m) \<Longrightarrow> nonzero_flat (data m) = []"
    by (auto simp: nonzero_flat_def filter_empty_conv list_all_length)
  then show ?thesis using assms
    by (auto simp: mask_coords_def np_where_def Let_def list_all_iff)
qed

theorem mask_coords_never_fails_witness:
  "\<exists>c. mask_coords \<lparr>shape = [2, 2], data = [False, False, False, False]\<rparr> = Inr c
     \<and> length c = 2 \<and> list_all (\<lambda>a. a = []) c"
  using mask_coords_never_fails[of "\<lparr>shape = [2, 2], data = [False, False, False, False]\<rparr>"]
  by (simp add: numeral_2_eq_2)

text \<open>The all-false mask of shape (2, 2): the coordinate set is two empty index arrays,
  and no error is raised.\<close>

theorem empty_mask_counterexample:
  "mask_coords \<lparr>shape = [2, 2], data = [False, False, False, False]\<rparr> = Inr [[], []]"
  by code_simp

text \<open>
  C3, as the notebooks have it. Gathering fails, with NumPy's IndexError, whenever some
  index of the coordinate set lies outside its axis of the grid (at or beyond the axis
  length, or below its negative). Nothing compares the shape of the mask the coordinates
  came from with the grid.
\<close>

theorem bold_masked_out_of_bounds:
  assumes "c \<noteq> []" and "length c \<le> length (shape g)"
    and "list_all (\<lambda>a. length a = n) c"
    and "ax < length c" and "i \<in> set (c ! ax)"
    and "i < - int (shape g ! ax) \<or> int (shape g ! ax) \<le> i"
  shows "bold_masked g c = Inl IndexError"
proof -
  let ?ds = "take (length c) (shape g)"
  have bl: "bcast_len c = Some n" using assms(1,3) by (rule bcast_len_equal)
  have "length (c ! ax) = n" using assms(3,4) by (simp add: list_all_length)
  then obtain j where j: "j < n" "c ! ax ! j = i"
    using assms(5) by (auto simp: in_set_conv_nth)
  let ?r = "map (\<lambda>a. a ! j) c"
  have "?r \<in> set (index_rows c n)"
    using j(1) by (auto simp: index_rows_equal[OF assms(3)])
  moreover have "\<exists>e. norm_position ?ds ?r = Inl e"
  proof (rule norm_position_bad[of ax])
    show "ax < length ?r" using assms(4) by simp
    show "ax < length ?ds" using assms(2,4) by simp
    show "?r ! ax < - int (?ds ! ax) \<or> int (?ds ! ax) \<le> ?r ! ax"
      using assms(4,6) j(2) by simp
  qed
  ultimately obtain e where "norm_positions ?ds (index_rows c n) = Inl e"
    using norm_positions_bad by blast
  moreover from this have "e = IndexError" by (rule norm_positions_error)
  ultimately show ?thesis using assms(1,2) bl
    by (simp add: bold_masked_def getitem_def)
qed

theorem bold_masked_out_of_bounds_witness:
  "bold_masked \<lparr>shape = [4, 4],
      data = [Fin 0, Fin 1, Fin 2, Fin 3,
              Fin 4, Fin 5, Fin 6, Fin 7,
              Fin 8, Fin 9, Fin 10, Fin 11,
              Fin 12, Fin 13, Fin 14, Fin 15]\<rparr> [[1, 4], [1, 2]] = Inl IndexError"
  by (rule bold_masked_out_of_bounds[where n = 2 and ax = 0 and i = 4]) simp_all

text \<open>The mask of shape (4, 4), true at (1,1) and (2,2), applied to a grid of shape
  (4, 5): every coordinate lies inside the grid, and the gather returns the grid's
  entries at (1,1) and (2,2) without an error.\<close>

theorem mismatched_shapes_counterexample:
  "mask_coords \<lparr>shape = [4, 4],
      data = [False, False, False, False,
              False, True, False, False,
              False, False, True, False,
              False, False, False, False]\<rparr> = Inr [[1, 2], [1, 2]]
   \<and> bold_masked \<lparr>shape = [4, 5],
      data = [Fin 0, Fin 1, Fin 2, Fin 3, Fin 4,
              Fin 5, Fin 6, Fin 7, Fin 8, Fin 9,
              Fin 10, Fin 11, Fin 12, Fin 13, Fin 14,
              Fin 15, Fin 16, Fin 17, Fin 18, Fin 19]\<rparr> [[1, 2], [1, 2]]
       = Inr \<lparr>shape = [2], data = [Fin 6, Fin 12]\<rparr>"
  by code_simp

text \<open>
  C4, as the notebooks have it. For a one-dimensional value array and a coordinate set
  over all axes of the target shape, scattering fails, with NumPy's ValueError, whenever
  the number of values is neither the number of coordinates nor one. A single value is
  broadcast to every coordinate: with the coordinates inside the target shape, the
  result has that shape, holds the value at every position of the coordinate set and
  zero at every other position.
\<close>

theorem scatter_length_mismatch:
  assumes "c \<noteq> []" and "length c = length s" and "list_all (\<lambda>a. length a = n) c"
    and "shape v = [lv]"
  shows "(lv \<noteq> n \<and> lv \<noteq> 1 \<longrightarrow> scatter v c s = Inl ValueError)
       \<and> (lv = 1 \<and> coords_ok s c n \<longrightarrow>
            (\<exists>r. scatter v c s = Inr r \<and> shape r = s
               \<and> (\<forall>p. in_bounds s p \<longrightarrow>
                     elem r p = (if \<exists>j<n. p = position_in s c j
                                 then data v ! 0 else Fin 0))))"
proof (intro conjI impI)
  have bl: "bcast_len c = Some n" using assms(1,3) by (rule bcast_len_equal)
  {
    assume "lv \<noteq> n \<and> lv \<noteq> 1"
    then have "broadcast_to v [n] = Inl ValueError"
      by (simp add: broadcast_to_def assms(4))
    then show "scatter v c s = Inl ValueError"
      using assms(1,2) bl by (simp add: scatter_def setitem_def np_zeros_def Let_def)
  }
  {
    assume a: "lv = 1 \<and> coords_ok s c n"
    then have "shape v = [1]" using assms(4) by simp
    with assms(1) a show "\<exists>r. scatter v c s = Inr r \<and> shape r = s
               \<and> (\<forall>p. in_bounds s p \<longrightarrow>
                     elem r p = (if \<exists>j<n. p = position_in s c j
                                 then data v ! 0 else Fin 0))"
      by (intro scatter_one_value) simp_all
  }
qed

theorem scatter_length_mismatch_witness:
  "scatter \<lparr>shape = [3], data = [Fin 5, Fin 10, Fin 11]\<rparr> [[1, 2], [1, 2]] [4, 4]
     = Inl ValueError
   \<and> (\<exists>r. scatter \<lparr>shape = [1], data = [Fin 5]\<rparr> [[1, - 2], [1, 2]] [4, 4] = Inr r
         \<and> shape r = [4, 4]
         \<and> elem r [1, 1] = Fin 5 \<and> elem r [2, 2] = Fin 5
         \<and> elem r [0, 0] = Fin 0 \<and> elem r [1, 2] = Fin 0)"
proof (rule conjI)
  show "scatter \<lparr>shape = [3], data = [Fin 5, Fin 10, Fin 11]\<rparr> [[1, 2], [1, 2]] [4, 4]
     = Inl ValueError"
    using scatter_length_mismatch[of "[[1, 2], [1, 2]]" "[4, 4]" 2
            "\<lparr>shape = [3], data = [Fin 5, Fin 10, Fin 11]\<rparr>" 3]
    by simp
next
  let ?c = "[[1, - 2], [1, 2 :: int]]"
  let ?v = "\<lparr>shape = [1], data = [Fin 5]\<rparr>"
  have pos: "position_in [4, 4] ?c 0 = [1, 1]" "position_in [4, 4] ?c (Suc 0) = [2, 2]"
    by (simp_all add: position_in_def wrap_index_def)
  have two: "\<And>P. (\<exists>j<2. P j) \<longleftrightarrow> P 0 \<or> P (Suc 0)"
    by (auto simp: less_2_cases_iff)
  have pre: "?c \<noteq> []" "length ?c = length [4, 4 :: nat]"
    "list_all (\<lambda>a. length a = 2) ?c" "shape ?v = [1]"
    by simp_all
  have co: "(1 :: nat) = 1 \<and> coords_ok [4, 4] ?c 2" by (simp add: coords_ok_def)
  have "\<exists>r. scatter ?v ?c [4, 4] = Inr r \<and> shape r = [4, 4]
      \<and> (\<forall>p. in_bounds [4, 4] p \<longrightarrow>
            elem r p = (if \<exists>j<2. p = position_in [4, 4] ?c j
                        then data ?v ! 0 else Fin 0))"
    by (rule scatter_length_mismatch[OF pre, THEN conjunct2, THEN mp, OF co])
  then obtain r where r: "scatter ?v ?c [4, 4] = Inr r" "shape r = [4, 4]"
    "\<forall>p. in_bounds [4, 4] p \<longrightarrow>
       elem r p = (if \<exists>j<2. p = position_in [4, 4] ?c j then data ?v ! 0 else Fin 0)"
    by blast
  have "elem r [1, 1] = Fin 5" "elem r [2, 2] = Fin 5"
    "elem r [0, 0] = Fin 0" "elem r [1, 2] = Fin 0"
    using r(3)[rule_format, of "[1, 1]"] r(3)[rule_format, of "[2, 2]"]
      r(3)[rule_format, of "[0, 0]"] r(3)[rule_format, of "[1, 2]"]
    by (simp_all add: in_bounds_def two pos)
  then show "\<exists>r. scatter ?v ?c [4, 4] = Inr r \<and> shape r = [4, 4]
         \<and> elem r [1, 1] = Fin 5 \<and> elem r [2, 2] = Fin 5
         \<and> elem r [0, 0] = Fin 0 \<and> elem r [1, 2] = Fin 0"
    using r(1,2) by blast
qed

text \<open>One value scattered to two coordinates: no error, both positions hold the value.\<close>

theorem scatter_broadcast_counterexample:
  "scatter \<lparr>shape = [1], data = [Fin 5]\<rparr> [[1, 2], [1, 2]] [4, 4]
     = Inr \<lparr>shape = [4, 4],
          data = [Fin 0, Fin 0, Fin 0, Fin 0,
                  Fin 0, Fin 5, Fin 0, Fin 0,
                  Fin 0, Fin 0, Fin 5, Fin 0,
                  Fin 0, Fin 0, Fin 0, Fin 0]\<rparr>"
  by code_simp

section \<open>The design matrix\<close>

text \<open>
  C7. For \<open>T\<close> acquired volumes, task regressors of shape \<open>(T, a)\<close> and nuisance
  regressors of shape \<open>(T, b)\<close>, the assembled design matrix exists, has \<open>T\<close> rows and
  \<open>a + b + 1\<close> columns, and its last column, the intercept, is 1 in every row. With two
  task regressors and three confound columns that is six columns.
\<close>

theorem design_matrix_shape:
  assumes "shape blocks_hrf = [T, a]" and "wf blocks_hrf"
    and "shape nuisance = [T, b]" and "wf nuisance"
  shows "\<exists>Xm. design_matrix blocks_hrf nuisance T = Inr Xm
       \<and> shape Xm = [T, a + b + 1]
       \<and> (\<forall>r < T. elem Xm [r, a + b] = Fin 1)"
proof -
  let ?crow = "\<lambda>i. block (data nuisance) i b @ block (replicate T (Fin 1)) i 1"
  let ?cf = "\<lparr>shape = [T, b + 1], data = concat (map ?crow [0 ..< T])\<rparr>"
  let ?xrow = "\<lambda>i. block (data blocks_hrf) i a @ block (data ?cf) i (b + 1)"
  let ?X = "\<lparr>shape = [T, a + (b + 1)], data = concat (map ?xrow [0 ..< T])\<rparr>"
  have lb: "length (data blocks_hrf) = T * a" and ln: "length (data nuisance) = T * b"
    using assms by (simp_all add: wf_def)
  have cf: "confounds nuisance T = Inr ?cf" using assms(3) by (rule confounds_data)
  have "shape ?cf = [T, b + 1]" by simp
  with assms(1) have "column_stack [blocks_hrf, ?cf] = Inr ?X" by (rule column_stack_2d)
  then have dm: "design_matrix blocks_hrf nuisance T = Inr ?X"
    by (simp add: design_matrix_def cf X_def)
  have crow_len: "\<forall>i < T. length (?crow i) = b + 1"
  proof (intro allI impI)
    fix i assume i: "i < T"
    have "length (block (data nuisance) i b) = b"
      using block_fits[OF i ln] by (rule length_block)
    moreover have "length (block (replicate T (Fin 1 :: float64)) i 1) = 1"
      using block_fits[OF i, of "replicate T (Fin 1 :: float64)" 1] by (intro length_block) simp
    ultimately show "length (?crow i) = b + 1" by simp
  qed
  then have lcf: "length (data ?cf) = T * (b + 1)" using rows_length[of T ?crow "b + 1"] by simp
  have intercept: "data ?cf ! (r * (b + 1) + b) = Fin 1" if r: "r < T" for r
  proof -
    have "data ?cf ! (r * (b + 1) + b) = ?crow r ! b"
      using rows_nth[OF crow_len r, of b] by simp
    also have "\<dots> = block (replicate T (Fin 1)) r 1 ! 0"
      using block_fits[OF r ln] by (simp add: nth_append length_block)
    also have "\<dots> = Fin 1"
      using r by (simp add: block_one[unfolded One_nat_def])
    finally show ?thesis .
  qed
  have xrow_len: "\<forall>i < T. length (?xrow i) = a + (b + 1)"
  proof (intro allI impI)
    fix i assume i: "i < T"
    have "length (block (data blocks_hrf) i a) = a"
      using block_fits[OF i lb] by (rule length_block)
    moreover have "length (block (data ?cf) i (b + 1)) = b + 1"
      using block_fits[OF i lcf] by (rule length_block)
    ultimately show "length (?xrow i) = a + (b + 1)" by simp
  qed
  have last: "elem ?X [r, a + b] = Fin 1" if r: "r < T" for r
  proof -
    have "data ?X ! (r * (a + (b + 1)) + (a + b)) = ?xrow r ! (a + b)"
      using rows_nth[OF xrow_len r, of "a + b"] by simp
    also have "\<dots> = block (data ?cf) r (b + 1) ! b"
      using block_fits[OF r lb] by (simp add: nth_append length_block)
    also have "\<dots> = data ?cf ! (r * (b + 1) + b)"
      using block_fits[OF r lcf] by (rule block_elem) simp
    also have "\<dots> = Fin 1" using r by (rule intercept)
    finally show ?thesis by (simp add: elem_def)
  qed
  show ?thesis using dm last by (auto simp: add.assoc)
qed

theorem design_matrix_shape_witness:
  "\<exists>Xm. design_matrix
           \<lparr>shape = [3, 2], data = [Fin 0, Fin 1, Fin 2, Fin 3, Fin 4, Fin 5]\<rparr>
           \<lparr>shape = [3, 3], data = [Fin 10, Fin 11, Fin 12, Fin 13, Fin 14, Fin 15,
                                     Fin 16, Fin 17, Fin 18]\<rparr> 3 = Inr Xm
      \<and> shape Xm = [3, 6]
      \<and> elem Xm [0, 5] = Fin 1 \<and> elem Xm [1, 5] = Fin 1 \<and> elem Xm [2, 5] = Fin 1"
proof -
  let ?b = "\<lparr>shape = [3, 2], data = [Fin 0, Fin 1, Fin 2, Fin 3, Fin 4, Fin 5]\<rparr>"
  let ?n = "\<lparr>shape = [3, 3], data = [Fin 10, Fin 11, Fin 12, Fin 13, Fin 14, Fin 15,
                                     Fin 16, Fin 17, Fin 18]\<rparr>"
  have h: "shape ?b = [3, 2]" "wf ?b" "shape ?n = [3, 3]" "wf ?n" by (simp_all add: wf_def)
  from design_matrix_shape[OF h]
  obtain Xm where Xm: "design_matrix ?b ?n 3 = Inr Xm" "shape Xm = [3, 6]"
    "\<forall>r < 3. elem Xm [r, 5] = Fin 1" by auto
  have "elem Xm [0, 5] = Fin 1" "elem Xm [1, 5] = Fin 1" "elem Xm [2, 5] = Fin 1"
    using Xm(3) by simp_all
  then show ?thesis using Xm(1,2) by blast
qed

section \<open>The censor matrix\<close>

text \<open>
  C9. For a framewise-displacement vector \<open>fd\<close> of length \<open>T\<close>, with \<open>k\<close> the number of
  volumes whose displacement is at least the threshold 0.25 (a NaN displacement counts as
  0 and is never among them), the censor matrix has shape \<open>(T, k)\<close>; column \<open>j\<close> holds
  1 in the row of the \<open>j\<close>-th such volume and 0 in every other row, and the row of a
  volume whose displacement is NaN is zero throughout.
\<close>

theorem censors_one_hot:
  "\<exists>cm. censors fd = Inr cm
     \<and> shape cm = [length fd, length (over_threshold fd)]
     \<and> (\<forall>j < length (over_threshold fd). \<forall>i < length fd.
           elem cm [i, j] = (if i = over_threshold fd ! j then Fin 1 else Fin 0))
     \<and> (\<forall>i < length fd. fd ! i = NaN \<longrightarrow>
           (\<forall>j < length (over_threshold fd). elem cm [i, j] = Fin 0))"
proof -
  let ?F = "over_threshold fd"
  let ?k = "length ?F"
  let ?T = "length fd"
  let ?d = "write_blocks (replicate (?T * ?k) (Fin 0))
       (zip (map (\<lambda>j. ?F ! j * ?k + j) [0 ..< ?k]) (map (\<lambda>x. [x]) (replicate ?k (Fin 1))))"
  let ?cm = "\<lparr>shape = [?T, ?k], data = ?d\<rparr>"
  have FT: "\<forall>q \<in> set ?F. q < ?T" by (auto simp: over_threshold_def)
  have cell: "elem ?cm [i, j] = (if i = ?F ! j then Fin 1 else Fin 0)"
    if "j < ?k" "i < ?T" for i j
  proof -
    have "?d ! (i * ?k + j) = (if i = ?F ! j then Fin 1 else Fin 0)"
      using refl FT that(2,1) by (rule one_hot_columns)
    then show ?thesis by (simp add: elem_def)
  qed
  have nan: "elem ?cm [i, j] = Fin 0" if "i < ?T" "fd ! i = NaN" "j < ?k" for i j
  proof -
    have "?F ! j \<in> set ?F" using that(3) by simp
    then have "fge (fd ! (?F ! j)) fd_threshold" by (simp add: over_threshold_def)
    then have "i \<noteq> ?F ! j" using that(2) by auto
    then show ?thesis using cell[OF that(3,1)] by simp
  qed
  have "censors fd = Inr ?cm" by (rule censors_data)
  then show ?thesis using cell nan by auto
qed

theorem censors_one_hot_witness:
  "\<exists>cm. censors [NaN, Fin (1 / 4), Fin (1 / 10), Fin 3, NaN] = Inr cm
     \<and> shape cm = [5, 2]
     \<and> elem cm [1, 0] = Fin 1 \<and> elem cm [3, 0] = Fin 0
     \<and> elem cm [3, 1] = Fin 1 \<and> elem cm [1, 1] = Fin 0
     \<and> elem cm [0, 0] = Fin 0 \<and> elem cm [0, 1] = Fin 0
     \<and> elem cm [4, 0] = Fin 0 \<and> elem cm [4, 1] = Fin 0"
proof -
  let ?fd = "[NaN, Fin (1 / 4), Fin (1 / 10), Fin 3, NaN]"
  have F: "over_threshold ?fd = [1, 3]" by code_simp
  from censors_one_hot[of ?fd]
  obtain cm where cm: "censors ?fd = Inr cm" "shape cm = [5, 2]"
    "\<forall>j < 2. \<forall>i < 5. elem cm [i, j] = (if i = [1, 3] ! j then Fin 1 else Fin 0)"
    "\<forall>i < 5. ?fd ! i = NaN \<longrightarrow> (\<forall>j < 2. elem cm [i, j] = Fin 0)"
    unfolding F by auto
  have "elem cm [1, 0] = Fin 1" "elem cm [3, 0] = Fin 0"
    "elem cm [3, 1] = Fin 1" "elem cm [1, 1] = Fin 0"
    using cm(3) by simp_all
  moreover have "elem cm [0, 0] = Fin 0" "elem cm [0, 1] = Fin 0"
    "elem cm [4, 0] = Fin 0" "elem cm [4, 1] = Fin 0"
    using cm(4) by simp_all
  ultimately show ?thesis using cm(1,2) by blast
qed

section \<open>The beta map\<close>

text \<open>
  C10. For the coordinate set \<open>c\<close> of a mask and a coefficient matrix \<open>b\<close> with one
  column per true entry of the mask, the beta map has the mask's shape; it is NaN at
  every position outside the mask, and at the \<open>j\<close>-th position of the coordinate set it
  holds the coefficient \<open>b[0, j]\<close> unless that coefficient is exactly zero, in which case
  it is NaN as well: an in-mask zero coefficient is stored as the same value as the
  background.
\<close>

theorem beta_map_zero_to_nan:
  assumes "wf m" and "shape m \<noteq> []" and "mask_coords m = Inr c"
    and "shape b = [Suc R, length (filter id (data m))]" and "wf b"
  shows "\<exists>bm. beta_map (shape m) c b = Inr bm \<and> shape bm = shape m
       \<and> (\<forall>p. in_bounds (shape m) p \<and> \<not> elem m p \<longrightarrow> elem bm p = NaN)
       \<and> (\<forall>j < length (filter id (data m)).
             elem bm (position c j) = (if elem b [0, j] = Fin 0 then NaN else elem b [0, j]))"
proof -
  let ?F = "nonzero_flat (data m)"
  let ?n = "length (filter id (data m))"
  let ?N = "prod_list (shape m)"
  let ?b0 = "\<lparr>shape = [?n], data = take ?n (data b)\<rparr>"
  let ?nan = "\<lambda>x. if x = Fin 0 then NaN else x"
  have n: "length ?F = ?n" by (rule length_nonzero_flat)
  have w: "np_where m = Inr c" using assms(3) by (simp add: mask_coords_def)
  have row: "getrow b 0 = Inr ?b0" and lrow: "length (take ?n (data b)) = ?n"
    using first_row[OF assms(4,5)] by simp_all
  have "shape ?b0 = [length ?F]" "wf ?b0" using lrow by (simp_all add: wf_def n)
  from scatter_where[OF assms(2,1) w this]
  obtain r where r: "scatter ?b0 c (shape m) = Inr r" "shape r = shape m"
    "length (data r) = ?N"
    "\<forall>j < length ?F. data r ! (?F ! j) = data ?b0 ! j"
    "\<forall>i < ?N. \<not> data m ! i \<longrightarrow> data r ! i = Fin 0"
    by blast
  let ?bm = "r\<lparr>data := map ?nan (data r)\<rparr>"
  have bm: "beta_map (shape m) c b = Inr ?bm"
    by (simp add: beta_map_def row r(1) zeros_to_nan_data)
  have out: "\<forall>p. in_bounds (shape m) p \<and> \<not> elem m p \<longrightarrow> elem ?bm p = NaN"
  proof (intro allI impI)
    fix p assume p: "in_bounds (shape m) p \<and> \<not> elem m p"
    then have i: "ravel (shape m) p < ?N" by (simp add: in_bounds_def ravel_lt)
    moreover have "\<not> data m ! ravel (shape m) p" using p by (simp add: elem_def)
    ultimately have "data r ! ravel (shape m) p = Fin 0" using r(5) by simp
    then show "elem ?bm p = NaN" using i by (simp add: elem_def r(2,3))
  qed
  have inn: "\<forall>j < ?n. elem ?bm (position c j)
      = (if elem b [0, j] = Fin 0 then NaN else elem b [0, j])"
  proof (intro allI impI)
    fix j assume j: "j < ?n"
    then have jF: "j < length ?F" by (simp add: n)
    then have "?F ! j \<in> set ?F" by simp
    then have Fj: "?F ! j < ?N" using assms(1) by (simp add: set_nonzero_flat wf_def)
    have "position c j = unravel (shape m) (?F ! j)"
      using assms(2) w jF by (rule where_position)
    then have rav: "ravel (shape m) (position c j) = ?F ! j"
      using Fj by (simp add: ravel_unravel)
    have "data r ! (?F ! j) = data b ! j" using r(4) jF j by simp
    moreover have "elem b [0, j] = data b ! j" by (simp add: elem_def assms(4))
    ultimately show "elem ?bm (position c j)
      = (if elem b [0, j] = Fin 0 then NaN else elem b [0, j])"
      using Fj by (simp add: elem_def r(2,3) rav)
  qed
  show ?thesis using bm r(2) out inn by auto
qed

theorem beta_map_zero_to_nan_witness:
  "\<exists>bm. beta_map [2, 2] [[0, 1], [1, 0]]
           \<lparr>shape = [2, 2], data = [Fin 0, Fin 7, Fin 1, Fin 2]\<rparr> = Inr bm
      \<and> shape bm = [2, 2]
      \<and> elem bm [0, 0] = NaN \<and> elem bm [1, 1] = NaN
      \<and> elem bm [0, 1] = NaN \<and> elem bm [1, 0] = Fin 7"
proof -
  let ?m = "\<lparr>shape = [2, 2], data = [False, True, True, False]\<rparr>"
  let ?b = "\<lparr>shape = [2, 2], data = [Fin 0, Fin 7, Fin 1, Fin 2]\<rparr>"
  let ?c = "[[0, 1], [1, 0 :: int]]"
  have h: "wf ?m" "shape ?m \<noteq> []" "mask_coords ?m = Inr ?c"
    "shape ?b = [Suc 1, length (filter id (data ?m))]" "wf ?b"
    by (simp_all add: wf_def) code_simp
  from beta_map_zero_to_nan[OF h]
  obtain bm where bm: "beta_map [2, 2] ?c ?b = Inr bm" "shape bm = [2, 2]"
    "\<forall>p. in_bounds [2, 2] p \<and> \<not> elem ?m p \<longrightarrow> elem bm p = NaN"
    "\<forall>j < 2. elem bm (position ?c j) = (if elem ?b [0, j] = Fin 0 then NaN else elem ?b [0, j])"
    by (auto simp: numeral_2_eq_2)
  have "elem bm [0, 0] = NaN" "elem bm [1, 1] = NaN"
    using bm(3) by (simp_all add: in_bounds_def elem_def)
  moreover have "elem bm (position ?c 0) = NaN" "elem bm (position ?c 1) = Fin 7"
    using bm(4) by (simp_all add: elem_def)
  then have "elem bm [0, 1] = NaN" "elem bm [1, 0] = Fin 7"
    by (simp_all add: position_def)
  ultimately show ?thesis using bm(1,2) by blast
qed

end
